theory Spec2Isabelle
  imports Main
begin

section \<open>Data model\<close>

text \<open>
  Channels of type \<^verbatim>\<open>chan struct{}\<close> are only ever closed, never sent on, so a channel
  is a one-shot signal: it has fired when it is closed. A channel is identified by
  the statement that allocated it and a serial number; two \<^verbatim>\<open>make\<close> calls never
  return the same channel. \<open>Closedchan\<close> is the package-level \<^verbatim>\<open>closedchan\<close>,
  closed by \<^verbatim>\<open>init\<close>.
\<close>

datatype chan =
    Closedchan
  | GroupDone nat
  | GroupFinished nat
  | ShutdownEnd nat
  | ShutdownDone nat
  | DependFinished nat
  | ReadinessReady nat
  | CtxDone nat

text \<open>
  Values of type \<^verbatim>\<open>interface{}\<close>: \<open>Nil\<close> is the nil interface, integers and strings
  have comparable dynamic types, slices and functions do not.
\<close>

datatype any = Nil | IntV int | StrV string | SliceV "int list" | FuncV nat

fun comparable :: "any \<Rightarrow> bool" where
  "comparable Nil = False"
| "comparable (IntV _) = True"
| "comparable (StrV _) = True"
| "comparable (SliceV _) = False"
| "comparable (FuncV _) = False"

text \<open>
  Errors: the sentinel \<^verbatim>\<open>ErrTimeout\<close>, a value made by \<^verbatim>\<open>errors.New\<close> (its address
  and its text) and a value made by \<^verbatim>\<open>fmt.Errorf("%s: %w", label, err)\<close>. A nil
  \<^verbatim>\<open>error\<close> is \<open>None\<close>.
\<close>

datatype error = ErrTimeout | ErrorString nat string | WrapError string error

fun Error_string :: "error \<Rightarrow> string" where
  "Error_string ErrTimeout = ''timeout expired''"
| "Error_string (ErrorString _ s) = s"
| "Error_string (WrapError label e) = label @ '': '' @ Error_string e"

text \<open>\<^verbatim>\<open>errors.Is\<close>: follows the \<^verbatim>\<open>Unwrap\<close> chain of the first argument.\<close>

fun errors_Is :: "error \<Rightarrow> error \<Rightarrow> bool" where
  "errors_Is (WrapError label e) target = (WrapError label e = target \<or> errors_Is e target)"
| "errors_Is e target = (e = target)"

text \<open>
  The nodes. Every leaf kind embeds a \<^verbatim>\<open>*group\<close> built by \<^verbatim>\<open>merge\<close> from its
  children; \<open>DependBg\<close> holds the children group, the parent and its own finished
  channel. The \<^verbatim>\<open>err\<close> field of an \<^verbatim>\<open>errBackground\<close> is mutable (through the
  \<^verbatim>\<open>ErrTail\<close>), so the node holds the field's address and the errors live in a
  store. A \<open>grp\<close> holds \<^verbatim>\<open>backgrounds\<close>, \<^verbatim>\<open>toClose\<close>, \<^verbatim>\<open>done\<close> and \<^verbatim>\<open>finished\<close>.
\<close>

datatype bg =
    EmptyBg
  | GroupBg grp
  | ShutdownBg grp chan chan
  | DependBg grp bg chan
  | ValueBg grp any any
  | ErrBg grp nat
  | AnnotationBg grp string
  | ReadinessBg grp chan
  | WaitBg grp nat
and grp =
    Group (backgrounds: "bg list") (toClose: "nat set") (gdone: chan) (finished: chan)

type_synonym errstore = "nat \<Rightarrow> error option"

subsection \<open>finishSig\<close>

fun finishSig :: "bg \<Rightarrow> chan" where
  "finishSig EmptyBg = Closedchan"
| "finishSig (GroupBg g) = finished g"
| "finishSig (ShutdownBg g e d) = d"
| "finishSig (DependBg c p f) = f"
| "finishSig (ValueBg g k v) = finished g"
| "finishSig (ErrBg g a) = finished g"
| "finishSig (AnnotationBg g l) = finished g"
| "finishSig (ReadinessBg g r) = finished g"
| "finishSig (WaitBg g w) = finished g"

subsection \<open>Err\<close>

text \<open>
  \<^verbatim>\<open>group.Err\<close> returns the first non-nil error of the children, scanning
  \<^verbatim>\<open>backgrounds\<close> from index 0. \<^verbatim>\<open>dependBackground.Err\<close> and
  \<^verbatim>\<open>annotationBackground.Err\<close> run the same loop themselves; \<^verbatim>\<open>errBackground.Err\<close>
  returns the \<^verbatim>\<open>err\<close> field. The other kinds inherit \<^verbatim>\<open>group.Err\<close>.
\<close>

fun Err :: "errstore \<Rightarrow> bg \<Rightarrow> error option"
  and group_Err :: "errstore \<Rightarrow> grp \<Rightarrow> error option"
  and Err_loop :: "errstore \<Rightarrow> bg list \<Rightarrow> error option" where
  "Err h EmptyBg = None"
| "Err h (GroupBg g) = group_Err h g"
| "Err h (ShutdownBg g e d) = group_Err h g"
| "Err h (DependBg c p f) =
     (case Err h p of Some err \<Rightarrow> Some err | None \<Rightarrow> group_Err h c)"
| "Err h (ValueBg g k v) = group_Err h g"
| "Err h (ErrBg g a) = h a"
| "Err h (AnnotationBg g l) =
     (case group_Err h g of Some err \<Rightarrow> Some (WrapError l err) | None \<Rightarrow> None)"
| "Err h (ReadinessBg g r) = group_Err h g"
| "Err h (WaitBg g w) = group_Err h g"
| "group_Err h (Group bs tc d f) = Err_loop h bs"
| "Err_loop h [] = None"
| "Err_loop h (b # bs) =
     (case Err h b of Some err \<Rightarrow> Some err | None \<Rightarrow> Err_loop h bs)"

subsection \<open>Value\<close>

fun Value :: "any \<Rightarrow> bg \<Rightarrow> any"
  and group_Value :: "any \<Rightarrow> grp \<Rightarrow> any"
  and Value_loop :: "any \<Rightarrow> bg list \<Rightarrow> any" where
  "Value key EmptyBg = Nil"
| "Value key (GroupBg g) = group_Value key g"
| "Value key (ShutdownBg g e d) = group_Value key g"
| "Value key (DependBg c p f) =
     (if Value key p \<noteq> Nil then Value key p else group_Value key c)"
| "Value key (ValueBg g k v) = (if k = key then v else group_Value key g)"
| "Value key (ErrBg g a) = group_Value key g"
| "Value key (AnnotationBg g l) = group_Value key g"
| "Value key (ReadinessBg g r) = group_Value key g"
| "Value key (WaitBg g w) = group_Value key g"
| "group_Value key (Group bs tc d f) = Value_loop key bs"
| "Value_loop key [] = Nil"
| "Value_loop key (b # bs) =
     (if Value key b \<noteq> Nil then Value key b else Value_loop key bs)"

subsection \<open>cause\<close>

fun cause :: "chan set \<Rightarrow> bg \<Rightarrow> error option"
  and group_cause :: "chan set \<Rightarrow> grp \<Rightarrow> error option"
  and cause_loop :: "chan set \<Rightarrow> bg list \<Rightarrow> error option" where
  "cause F EmptyBg = None"
| "cause F (GroupBg g) = group_cause F g"
| "cause F (ShutdownBg g e d) =
     (case group_cause F g of Some err \<Rightarrow> Some err
      | None \<Rightarrow> if d \<in> F then None else Some ErrTimeout)"
| "cause F (DependBg c p f) =
     (case group_cause F c of Some err \<Rightarrow> Some err | None \<Rightarrow> cause F p)"
| "cause F (ValueBg g k v) = group_cause F g"
| "cause F (ErrBg g a) = group_cause F g"
| "cause F (AnnotationBg g l) =
     (case group_cause F g of Some err \<Rightarrow> Some (WrapError l err) | None \<Rightarrow> None)"
| "cause F (ReadinessBg g r) = group_cause F g"
| "cause F (WaitBg g w) = group_cause F g"
| "group_cause F (Group bs tc d f) = cause_loop F bs"
| "cause_loop F [] = None"
| "cause_loop F (b # bs) =
     (case cause F b of Some err \<Rightarrow> Some err | None \<Rightarrow> cause_loop F bs)"

section \<open>Goroutines and the state of the program\<close>

text \<open>
  The statements of the \<^verbatim>\<open>close\<close> methods and of \<^verbatim>\<open>shutdown\<close>, as the instructions
  of a goroutine. A goroutine is the list of instructions it still has to run.
  \<^item> \<open>ICall b\<close>: \<^verbatim>\<open>b.close()\<close>; \<open>ICallGroup g\<close>: \<^verbatim>\<open>g.close()\<close> on a \<^verbatim>\<open>*group\<close>;
  \<^item> \<open>IGo i\<close>: \<^verbatim>\<open>go\<close> of one instruction;
  \<^item> \<open>IRecv c\<close>: \<^verbatim>\<open><-c\<close>;
  \<^item> \<open>IRange g R\<close>: the loop \<^verbatim>\<open>for i := range g.toClose\<close>, with the keys \<open>R\<close> still in the map;
  \<^item> \<open>IClose c\<close>: \<^verbatim>\<open>close(c)\<close>, which panics on a closed channel;
  \<^item> \<open>ICloseOnce c\<close>: \<^verbatim>\<open>select { case <-c: default: close(c) }\<close> under the node's lock;
  \<^item> \<open>ISelect ctx c a\<close>: the \<^verbatim>\<open>select\<close> of \<^verbatim>\<open>shutdown\<close>, \<open>ICause c a\<close> its call of
    \<^verbatim>\<open>c.cause()\<close> and \<open>IReturn r\<close> the value returned; \<open>a\<close> is the label that
    \<^verbatim>\<open>annotationBackground.Shutdown\<close> wraps a non-nil result in. The walk of
    \<^verbatim>\<open>cause\<close> is one step: it reads the channels as they are when it is called.
\<close>

datatype instr =
    ICall bg
  | ICallGroup grp
  | IGo instr
  | IRecv chan
  | IRange grp "nat set"
  | IClose chan
  | ICloseOnce chan
  | ISelect chan bg "string option"
  | ICause bg "string option"
  | IReturn "error option"

text \<open>
  The state: the closed channels, the goroutines, the next fresh address, the
  \<^verbatim>\<open>err\<close> fields, the panic that stopped the program (if any), the channels in the order
  in which \<^verbatim>\<open>close\<close> closed them, and the history of the instructions run
  (goroutine, instruction, closed channels before it).
\<close>

datatype panic = CloseOfClosedChannel | IndexOutOfRange

record world =
  fired :: "chan set"
  pool :: "instr list list"
  nextid :: nat
  errs :: errstore
  faulted :: "panic option"
  closed_log :: "chan list"
  trace :: "(nat \<times> instr \<times> chan set) list"

definition init_world :: world where
  "init_world = \<lparr>fired = {Closedchan}, pool = [], nextid = 0, errs = (\<lambda>a. None),
     faulted = None, closed_log = [], trace = []\<rparr>"

section \<open>Constructors\<close>

definition addToCloseStream :: "chan \<Rightarrow> bg \<Rightarrow> world \<Rightarrow> world" where
  "addToCloseStream dn c w = w\<lparr>pool := pool w @ [[IRecv dn, ICall c]]\<rparr>"

text \<open>
  The loop of \<^verbatim>\<open>merge\<close> over \<^verbatim>\<open>bgs\<close>: \<open>i\<close> is the index in \<^verbatim>\<open>bgs\<close>, \<open>ss\<close> the children
  kept so far and \<open>tc\<close> the map \<^verbatim>\<open>toClose\<close>. A nil child is \<open>None\<close>.
\<close>

fun merge_loop :: "chan \<Rightarrow> nat \<Rightarrow> bg option list \<Rightarrow> bg list \<times> nat set \<times> world
    \<Rightarrow> bg list \<times> nat set \<times> world" where
  "merge_loop dn i [] acc = acc"
| "merge_loop dn i (None # bgs) acc = merge_loop dn (Suc i) bgs acc"
| "merge_loop dn i (Some s # bgs) (ss, tc, w) =
     (if finishSig s \<in> fired w
      then merge_loop dn (Suc i) bgs (ss @ [s], tc, w)
      else merge_loop dn (Suc i) bgs (ss @ [s], insert i tc, addToCloseStream dn s w))"

definition merge :: "bg option list \<Rightarrow> world \<Rightarrow> grp \<times> world" where
  "merge bgs w =
     (if bgs = [] then (Group [] {} Closedchan Closedchan, w)
      else
        let n = nextid w;
            (ss, tc, w') = merge_loop (GroupDone n) 0 bgs ([], {}, w\<lparr>nextid := Suc n\<rparr>)
        in (Group ss tc (GroupDone n) (GroupFinished n), w'))"

definition Merge :: "bg option list \<Rightarrow> world \<Rightarrow> bg \<times> world" where
  "Merge bgs w = (let (g, w') = merge bgs w in (GroupBg g, w'))"

definition Empty :: bg where
  "Empty = EmptyBg"

definition withDependency :: "bg \<Rightarrow> bg option list \<Rightarrow> world \<Rightarrow> bg \<times> world" where
  "withDependency parent children w =
     (let (g, w') = merge children w; n = nextid w'
      in (DependBg g parent (DependFinished n), w'\<lparr>nextid := Suc n\<rparr>))"

definition withShutdown :: "bg option list \<Rightarrow> world \<Rightarrow> bg \<times> world" where
  "withShutdown children w =
     (let (g, w') = merge children w; n = nextid w'
      in (ShutdownBg g (ShutdownEnd n) (ShutdownDone n), w'\<lparr>nextid := Suc n\<rparr>))"

text \<open>\<^verbatim>\<open>withValue\<close> panics on a nil key and on a key of a type that is not comparable.\<close>

definition withValue :: "any \<Rightarrow> any \<Rightarrow> bg option list \<Rightarrow> world \<Rightarrow> string + bg \<times> world" where
  "withValue key val children w =
     (if key = Nil then Inl ''nil background value key''
      else if \<not> comparable key then Inl ''background value key is not comparable''
      else let (g, w') = merge children w in Inr (ValueBg g key val, w'))"

definition withError :: "error option \<Rightarrow> bg option list \<Rightarrow> world \<Rightarrow> bg \<times> world" where
  "withError err children w =
     (let (g, w') = merge children w; a = nextid w'
      in (ErrBg g a, w'\<lparr>nextid := Suc a, errs := (errs w')(a := err)\<rparr>))"

definition withErrorGroup :: "bg option list \<Rightarrow> world \<Rightarrow> bg \<times> world" where
  "withErrorGroup children w = withError None children w"

definition withAnnotation :: "string \<Rightarrow> bg option list \<Rightarrow> world \<Rightarrow> bg \<times> world" where
  "withAnnotation message children w =
     (let (g, w') = merge children w in (AnnotationBg g message, w'))"

definition withReadiness :: "bg option list \<Rightarrow> world \<Rightarrow> bg \<times> world" where
  "withReadiness children w =
     (let (g, w') = merge children w; n = nextid w'
      in (ReadinessBg g (ReadinessReady n), w'\<lparr>nextid := Suc n\<rparr>))"

definition withWait :: "bg option list \<Rightarrow> world \<Rightarrow> bg \<times> world" where
  "withWait children w =
     (let (g, w') = merge children w; n = nextid w'
      in (WaitBg g n, w'\<lparr>nextid := Suc n\<rparr>))"

text \<open>\<^verbatim>\<open>DependsOn\<close> is \<^verbatim>\<open>withDependency\<close> with the receiver as the parent, for every kind of node.\<close>

definition DependsOn :: "bg \<Rightarrow> bg option list \<Rightarrow> world \<Rightarrow> bg \<times> world" where
  "DependsOn b children w = withDependency b children w"

section \<open>The tails\<close>

text \<open>
  \<^verbatim>\<open>errGroupBackground.Error\<close>: the tail of an error group is the node itself; the
  assignment happens under the node's lock.
\<close>

fun errGroup_Error :: "bg \<Rightarrow> error option \<Rightarrow> world \<Rightarrow> world" where
  "errGroup_Error (ErrBg g a) err w =
     (if err \<noteq> None
      then (if errs w a = None then w\<lparr>errs := (errs w)(a := err)\<rparr> else w)
      else w)"
| "errGroup_Error b err w = w"





section \<open>Running the goroutines\<close>

text \<open>The body of \<^verbatim>\<open>b.close()\<close> for each kind of node.\<close>

fun close_body :: "bg \<Rightarrow> instr list" where
  "close_body EmptyBg = []"
| "close_body (GroupBg g) = [ICallGroup g]"
| "close_body (ShutdownBg g e d) = [IGo (ICallGroup g), IRecv (finished g), ICloseOnce e]"
| "close_body (DependBg c p f) =
     [ICallGroup c, IRecv (finished c), ICall p, IRecv (finishSig p), ICloseOnce f]"
| "close_body (ValueBg g k v) = [ICallGroup g]"
| "close_body (ErrBg g a) = [ICallGroup g]"
| "close_body (AnnotationBg g l) = [ICallGroup g]"
| "close_body (ReadinessBg g r) = [ICallGroup g]"
| "close_body (WaitBg g w) = [ICallGroup g]"

text \<open>\<^verbatim>\<open>shutdown(ctx, c)\<close>, and the \<^verbatim>\<open>Shutdown\<close> method of each kind of node.\<close>

definition shutdown :: "chan \<Rightarrow> bg \<Rightarrow> string option \<Rightarrow> instr list" where
  "shutdown ctx c a = [IGo (ICall c), ISelect ctx c a]"

fun Shutdown :: "chan \<Rightarrow> bg \<Rightarrow> instr list" where
  "Shutdown ctx EmptyBg = [IReturn None]"
| "Shutdown ctx (GroupBg g) = shutdown ctx (GroupBg g) None"
| "Shutdown ctx (ShutdownBg g e d) = shutdown ctx (ShutdownBg g e d) None"
| "Shutdown ctx (DependBg c p f) = shutdown ctx (DependBg c p f) None"
| "Shutdown ctx (ValueBg g k v) = shutdown ctx (GroupBg g) None"
| "Shutdown ctx (ErrBg g a) = shutdown ctx (GroupBg g) None"
| "Shutdown ctx (AnnotationBg g l) = shutdown ctx (GroupBg g) (Some l)"
| "Shutdown ctx (ReadinessBg g r) = shutdown ctx (GroupBg g) None"
| "Shutdown ctx (WaitBg g w) = shutdown ctx (GroupBg g) None"

fun annotate :: "string option \<Rightarrow> error option \<Rightarrow> error option" where
  "annotate (Some l) (Some err) = Some (WrapError l err)"
| "annotate a None = None"
| "annotate None r = r"

text \<open>
  One instruction. \<open>Next is sp cs\<close>: the instruction is replaced by \<open>is\<close>, the
  goroutines \<open>sp\<close> are started and the channels \<open>cs\<close> are closed. \<open>Blocked\<close>: the
  goroutine cannot run this instruction now. \<open>Fault p\<close>: the run-time panic \<open>p\<close>. The number
  \<open>k\<close> is the choice the run-time makes: the key that \<^verbatim>\<open>range\<close> yields next, and the
  case that \<^verbatim>\<open>select\<close> takes (0 for the finished signal, anything else for the
  deadline).
\<close>

datatype outcome = Blocked | Fault panic | Next "instr list" "instr list list" "chan list"

fun exec :: "nat \<Rightarrow> instr \<Rightarrow> chan set \<Rightarrow> outcome" where
  "exec k (ICall b) F = Next (close_body b) [] []"
| "exec k (ICallGroup g) F =
     (if gdone g \<in> F then Next [] [] []
      else Next [IRange g (toClose g), IClose (finished g)] [] [gdone g])"
| "exec k (IGo i) F = Next [] [[i]] []"
| "exec k (IRecv c) F = (if c \<in> F then Next [] [] [] else Blocked)"
| "exec k (IRange g R) F =
     (if R = {} then Next [] [] []
      else if k \<notin> R then Blocked
      else if k < length (backgrounds g)
      then Next [IRecv (finishSig (backgrounds g ! k)), IRange g (R - {k})] [] []
      else Fault IndexOutOfRange)"
| "exec k (IClose c) F = (if c \<in> F then Fault CloseOfClosedChannel else Next [] [] [c])"
| "exec k (ICloseOnce c) F = (if c \<in> F then Next [] [] [] else Next [] [] [c])"
| "exec k (ISelect ctx c a) F =
     (if k = 0 then (if finishSig c \<in> F then Next [IReturn None] [] [] else Blocked)
      else (if ctx \<in> F then Next [ICause c a] [] [] else Blocked))"
| "exec k (ICause c a) F = Next [IReturn (annotate a (cause F c))] [] []"
| "exec k (IReturn r) F = Next [] [] []"

text \<open>
  One step of the program: goroutine \<open>i\<close> runs its next instruction with choice
  \<open>k\<close>. A step that cannot be taken leaves the state as it is, and a panic in any
  goroutine stops the program.
\<close>

definition step :: "nat \<times> nat \<Rightarrow> world \<Rightarrow> world" where
  "step ik w =
     (let i = fst ik; k = snd ik in
      if faulted w \<noteq> None \<or> length (pool w) \<le> i then w
      else case pool w ! i of
        [] \<Rightarrow> w
      | ins # rest \<Rightarrow>
          (case exec k ins (fired w) of
             Blocked \<Rightarrow> w
           | Fault p \<Rightarrow> w\<lparr>faulted := Some p\<rparr>
           | Next is sp cs \<Rightarrow>
               w\<lparr>fired := fired w \<union> set cs,
                 pool := (pool w)[i := is @ rest] @ sp,
                 closed_log := closed_log w @ cs,
                 trace := trace w @ [(i, ins, fired w)]\<rparr>))"

fun run :: "(nat \<times> nat) list \<Rightarrow> world \<Rightarrow> world" where
  "run [] w = w"
| "run (ik # sched) w = run sched (step ik w)"

text \<open>\<^verbatim>\<open>go f()\<close> from outside: a new goroutine with the given instructions.\<close>

definition spawn :: "instr list \<Rightarrow> world \<Rightarrow> world" where
  "spawn is w = w\<lparr>pool := pool w @ [is]\<rparr>"

text \<open>The instructions that goroutine \<open>i\<close> has run, in order, each with the closed channels before it.\<close>

definition thread_events :: "nat \<Rightarrow> world \<Rightarrow> (instr \<times> chan set) list" where
  "thread_events i w = map snd (filter (\<lambda>e. fst e = i) (trace w))"

section \<open>The example programs\<close>

text \<open>
  \<^verbatim>\<open>StartJob\<close> of the dependency example: a shutdown leaf and a goroutine that waits
  for \<^verbatim>\<open>tail.End()\<close> and then calls \<^verbatim>\<open>tail.Done()\<close>. Its \<^verbatim>\<open>main\<close> builds
  \<^verbatim>\<open>bg1.DependsOn(bg2)\<close>.
\<close>

fun job_body :: "bg \<Rightarrow> instr list" where
  "job_body (ShutdownBg g e d) = [IRecv e, ICloseOnce d]"
| "job_body b = []"

definition StartJob :: "world \<Rightarrow> bg \<times> world" where
  "StartJob w = (let (b, w') = withShutdown [] w in (b, spawn (job_body b) w'))"

definition example_dependency :: "bg \<times> world" where
  "example_dependency =
     (let (bg1, w1) = StartJob init_world;
          (bg2, w2) = StartJob w1
      in DependsOn bg1 [Some bg2] w2)"

text \<open>
  A schedule that runs \<^verbatim>\<open>close\<close> of the example's dependency (as goroutine 3) to
  its end: the watcher of \<^verbatim>\<open>bg2\<close> (goroutine 2), the job of \<^verbatim>\<open>bg2\<close> (goroutine 1),
  the job of \<^verbatim>\<open>bg1\<close> (goroutine 0).
\<close>

definition example_schedule :: "(nat \<times> nat) list" where
  "example_schedule =
     [(3, 0), (3, 0), (2, 0), (2, 0), (2, 0), (2, 0), (2, 0), (1, 0), (1, 0),
      (3, 0), (3, 0), (3, 0), (3, 0), (3, 0), (3, 0), (3, 0), (3, 0), (3, 0),
      (0, 0), (0, 0), (3, 0), (3, 0)]"

section \<open>The stages of a goroutine\<close>

text \<open>The instructions of \<^verbatim>\<open>group.close\<close> after its guard: they call nothing.\<close>

fun is_local :: "instr \<Rightarrow> bool" where
  "is_local (IRecv c) = True"
| "is_local (IRange g R) = True"
| "is_local (IClose c) = True"
| "is_local i = False"

definition dep_started :: "grp \<Rightarrow> bg \<Rightarrow> chan \<Rightarrow> (instr \<times> chan set) list
    \<Rightarrow> (instr \<times> chan set) list \<Rightarrow> bool" where
  "dep_started c p f E E' \<longleftrightarrow>
     (\<exists>F0 F1. E = (ICall (DependBg c p f), F0) # (ICallGroup c, F1) # E')"

definition dep_late :: "grp \<Rightarrow> (instr \<times> chan set) list \<Rightarrow> bool" where
  "dep_late c E' \<longleftrightarrow> (\<forall>(ins, F') \<in> set E'. is_local ins \<or> finished c \<in> F')"

text \<open>
  The stages of a goroutine that runs \<^verbatim>\<open>close\<close> of the dependency with children
  \<open>c\<close>, parent \<open>p\<close> and finished channel \<open>f\<close>: the instructions \<open>T\<close> it has left,
  the instructions \<open>E\<close> it has run, and the closed channels \<open>F\<close>.
\<close>

inductive dep_ph :: "grp \<Rightarrow> bg \<Rightarrow> chan \<Rightarrow> instr list \<Rightarrow> (instr \<times> chan set) list
    \<Rightarrow> chan set \<Rightarrow> bool" for c p f where
  p0: "dep_ph c p f [ICall (DependBg c p f)] [] F"
| p1: "dep_ph c p f [ICallGroup c, IRecv (finished c), ICall p, IRecv (finishSig p), ICloseOnce f]
         [(ICall (DependBg c p f), F0)] F"
| p2: "list_all is_local X \<Longrightarrow> dep_started c p f E E' \<Longrightarrow> list_all (\<lambda>e. is_local (fst e)) E'
    \<Longrightarrow> dep_ph c p f (X @ [IRecv (finished c), ICall p, IRecv (finishSig p), ICloseOnce f]) E F"
| p3: "finished c \<in> F \<Longrightarrow> dep_started c p f E E' \<Longrightarrow> dep_late c E'
    \<Longrightarrow> Y = [ICall p] \<or> (\<exists>F'. (ICall p, F') \<in> set E')
    \<Longrightarrow> dep_ph c p f (Y @ [IRecv (finishSig p), ICloseOnce f]) E F"
| p4: "finished c \<in> F \<Longrightarrow> finishSig p \<in> F \<Longrightarrow> dep_started c p f E E' \<Longrightarrow> dep_late c E'
    \<Longrightarrow> \<exists>F'. (ICall p, F') \<in> set E' \<Longrightarrow> dep_ph c p f [ICloseOnce f] E F"
| p5: "finished c \<in> F \<Longrightarrow> finishSig p \<in> F \<Longrightarrow> f \<in> F
    \<Longrightarrow> dep_started c p f E (E' @ [(ICloseOnce f, F')]) \<Longrightarrow> dep_late c E'
    \<Longrightarrow> finishSig p \<in> F' \<Longrightarrow> finished c \<in> F' \<Longrightarrow> \<exists>F''. (ICall p, F'') \<in> set E'
    \<Longrightarrow> dep_ph c p f [] E F"

section \<open>The path that a timeout reports\<close>

text \<open>
  What \<^verbatim>\<open>cause\<close> is documented to find, in the words of its comment: a path of
  nodes that are not closed, from a node down to a shutdown leaf whose \<^verbatim>\<open>done\<close>
  channel is not closed, with the annotations met on the way. The children of a
  node are the children of its group, and for a dependency also its parent.
\<close>

fun child_nodes :: "bg \<Rightarrow> bg list" where
  "child_nodes EmptyBg = []"
| "child_nodes (GroupBg g) = backgrounds g"
| "child_nodes (ShutdownBg g e d) = backgrounds g"
| "child_nodes (DependBg c p f) = backgrounds c @ [p]"
| "child_nodes (ValueBg g k v) = backgrounds g"
| "child_nodes (ErrBg g a) = backgrounds g"
| "child_nodes (AnnotationBg g l) = backgrounds g"
| "child_nodes (ReadinessBg g r) = backgrounds g"
| "child_nodes (WaitBg g n) = backgrounds g"

fun annotation_of :: "bg \<Rightarrow> string list" where
  "annotation_of (AnnotationBg g l) = [l]"
| "annotation_of b = []"

fun unfinished_leaf :: "chan set \<Rightarrow> bg \<Rightarrow> bool" where
  "unfinished_leaf F (ShutdownBg g e d) = (d \<notin> F)"
| "unfinished_leaf F b = False"

inductive unfinished_path :: "chan set \<Rightarrow> bg \<Rightarrow> string list \<Rightarrow> bool" for F where
  here: "unfinished_leaf F b \<Longrightarrow> unfinished_path F b []"
| below: "c \<in> set (child_nodes b) \<Longrightarrow> unfinished_path F c ls
    \<Longrightarrow> unfinished_path F b (annotation_of b @ ls)"

text \<open>
  The stages of a goroutine that runs \<^verbatim>\<open>shutdown(ctx, c)\<close>, with \<open>a\<close> the label of
  the annotation that called it (if any): the instructions \<open>T\<close> it has left, the
  instructions \<open>E\<close> it has run and the closed channels \<open>F\<close>.
\<close>

inductive shutdown_ph :: "chan \<Rightarrow> bg \<Rightarrow> string option \<Rightarrow> instr list
    \<Rightarrow> (instr \<times> chan set) list \<Rightarrow> chan set \<Rightarrow> bool" for ctx c a where
  s0: "shutdown_ph ctx c a [IGo (ICall c), ISelect ctx c a] [] F"
| s1: "shutdown_ph ctx c a [ISelect ctx c a] [(IGo (ICall c), F0)] F"
| s2f: "finishSig c \<in> F1
    \<Longrightarrow> shutdown_ph ctx c a [IReturn None] [(IGo (ICall c), F0), (ISelect ctx c a, F1)] F"
| s2d: "ctx \<in> F1 \<Longrightarrow> F1 \<subseteq> F
    \<Longrightarrow> shutdown_ph ctx c a [ICause c a] [(IGo (ICall c), F0), (ISelect ctx c a, F1)] F"
| s3f: "finishSig c \<in> F1
    \<Longrightarrow> shutdown_ph ctx c a [] [(IGo (ICall c), F0), (ISelect ctx c a, F1), (IReturn None, F2)] F"
| s3d: "ctx \<in> F1 \<Longrightarrow> F1 \<subseteq> F2
    \<Longrightarrow> shutdown_ph ctx c a [IReturn (annotate a (cause F2 c))]
          [(IGo (ICall c), F0), (ISelect ctx c a, F1), (ICause c a, F2)] F"
| s4d: "ctx \<in> F1 \<Longrightarrow> F1 \<subseteq> F2
    \<Longrightarrow> shutdown_ph ctx c a []
          [(IGo (ICall c), F0), (ISelect ctx c a, F1), (ICause c a, F2),
           (IReturn (annotate a (cause F2 c)), F3)] F"

text \<open>The deadline example: a goroutine cancels the context.\<close>

definition timeout_schedule :: "(nat \<times> nat) list" where
  "timeout_schedule = [(0, 0), (1, 0), (0, 1), (0, 0), (0, 0)]"

text \<open>
  The generator of the repository's third example: a shutdown leaf under the
  annotation \<^verbatim>\<open>"generator"\<close>, a goroutine that calls \<^verbatim>\<open>Shutdown\<close> on it and a
  goroutine that cancels the context.
\<close>

definition generator_world :: "bg \<times> world" where
  "generator_world =
     (let (s, w1) = withShutdown [] init_world;
          (an, w2) = withAnnotation ''generator'' [Some s] w1
      in (an, spawn [ICloseOnce (CtxDone 0)] (spawn (Shutdown (CtxDone 0) an) w2)))"

definition generator_schedule :: "(nat \<times> nat) list" where
  "generator_schedule = [(1, 0), (2, 0), (1, 1), (1, 0), (1, 0)]"

section \<open>Closing a channel twice\<close>

text \<open>
  The discipline of the channels. \<^verbatim>\<open>merge\<close> gives a group either \<^verbatim>\<open>closedchan\<close>
  for both channels or a fresh pair (\<open>chan_ok\<close>); the channels that
  \<^verbatim>\<open>Done\<close>, \<^verbatim>\<open>Ok\<close> and the \<^verbatim>\<open>close\<close> of a shutdown leaf close under a guard are never
  the finished channel of a group (\<open>closable\<close>, \<open>ok_instr\<close>).
\<close>

fun is_group_finished :: "chan \<Rightarrow> bool" where
  "is_group_finished (GroupFinished n) = True"
| "is_group_finished c = False"

fun chan_ok :: "grp \<Rightarrow> bool" where
  "chan_ok (Group bs tc Closedchan f) = True"
| "chan_ok (Group bs tc (GroupDone n) f) = (f = GroupFinished n)"
| "chan_ok (Group bs tc d f) = False"

fun closable :: "bg \<Rightarrow> bool" where
  "closable EmptyBg = True"
| "closable (GroupBg g) = chan_ok g"
| "closable (ShutdownBg g e d) = (chan_ok g \<and> \<not> is_group_finished e)"
| "closable (DependBg c p f) = (chan_ok c \<and> closable p \<and> \<not> is_group_finished f)"
| "closable (ValueBg g k v) = chan_ok g"
| "closable (ErrBg g a) = chan_ok g"
| "closable (AnnotationBg g l) = chan_ok g"
| "closable (ReadinessBg g r) = chan_ok g"
| "closable (WaitBg g n) = chan_ok g"

fun ok_instr :: "instr \<Rightarrow> bool" where
  "ok_instr (ICall b) = closable b"
| "ok_instr (ICallGroup g) = chan_ok g"
| "ok_instr (IGo (ICall b)) = closable b"
| "ok_instr (IGo (ICallGroup g)) = chan_ok g"
| "ok_instr (IGo i) = False"
| "ok_instr (IClose c) = is_group_finished c"
| "ok_instr (ICloseOnce c) = (\<not> is_group_finished c)"
| "ok_instr i = True"

text \<open>
  A goroutine of callers: its instructions are calls, receives and guarded closes,
  with no \<^verbatim>\<open>close(g.finished)\<close> of a \<^verbatim>\<open>group.close\<close> under way.
\<close>

definition caller_instr :: "instr \<Rightarrow> bool" where
  "caller_instr i \<longleftrightarrow> ok_instr i \<and> (\<forall>c. i \<noteq> IClose c)"



text \<open>
  The indices of \<^verbatim>\<open>toClose\<close> are indices of \<^verbatim>\<open>backgrounds\<close> (\<open>idx_ok\<close>), for every
  group that the instructions of a goroutine can reach.
\<close>

definition idx_ok :: "grp \<Rightarrow> bool" where
  "idx_ok g \<longleftrightarrow> (\<forall>k \<in> toClose g. k < length (backgrounds g))"







section \<open>Error and value queries\<close>

subsection \<open>Err\<close>

lemma Err_loop_Some_iff:
  "Err_loop h bs = Some e \<longleftrightarrow>
     (\<exists>i < length bs. Err h (bs ! i) = Some e \<and> (\<forall>j < i. Err h (bs ! j) = None))"
proof (induction bs)
  case Nil show ?case by simp
next
  case (Cons b bs)
  show ?case
  proof (cases "Err h b")
    case None
    have "(\<exists>i<length (b # bs). Err h ((b # bs) ! i) = Some e \<and> (\<forall>j<i. Err h ((b # bs) ! j) = None))
       \<longleftrightarrow> (\<exists>i<length bs. Err h (bs ! i) = Some e \<and> (\<forall>j<i. Err h (bs ! j) = None))" (is "?L \<longleftrightarrow> ?R")
    proof
      assume ?L
      then obtain i where i: "i < length (b # bs)" "Err h ((b # bs) ! i) = Some e"
        "\<forall>j<i. Err h ((b # bs) ! j) = None" by blast
      with None obtain i' where "i = Suc i'" by (cases i) auto
      with i show ?R by (intro exI[of _ i']) auto
    next
      assume ?R
      then obtain i where i: "i < length bs" "Err h (bs ! i) = Some e"
        "\<forall>j<i. Err h (bs ! j) = None" by blast
      show ?L using i None by (intro exI[of _ "Suc i"]) (auto simp: less_Suc_eq_0_disj)
    qed
    with None Cons show ?thesis by simp
  next
    case (Some x)
    have "(\<exists>i<length (b # bs). Err h ((b # bs) ! i) = Some e \<and> (\<forall>j<i. Err h ((b # bs) ! j) = None))
       \<longleftrightarrow> x = e" (is "?L \<longleftrightarrow> _")
    proof
      assume ?L
      then obtain i where i: "i < length (b # bs)" "Err h ((b # bs) ! i) = Some e"
        "\<forall>j<i. Err h ((b # bs) ! j) = None" by blast
      have "i = 0" using i(3) Some by (cases i) auto
      with i Some show "x = e" by simp
    next
      assume "x = e" with Some show ?L by (intro exI[of _ 0]) simp
    qed
    with Some show ?thesis by simp
  qed
qed

lemma Err_loop_None_iff: "Err_loop h bs = None \<longleftrightarrow> (\<forall>b \<in> set bs. Err h b = None)"
  by (induction bs) (auto split: option.splits)

text \<open>
  Claim C4. \<^verbatim>\<open>Err\<close> of a group is the error of the leftmost child that has one: the
  child at some index \<open>i\<close> reports it and every child at a smaller index reports
  nil; it is nil exactly when every child reports nil. \<^verbatim>\<open>Err\<close> of a dependency is
  the parent's error when that is not nil, and otherwise what the children group
  reports.
\<close>

theorem Err_precedence:
  "(Err h (GroupBg g) = Some e \<longleftrightarrow>
      (\<exists>i < length (backgrounds g). Err h (backgrounds g ! i) = Some e
          \<and> (\<forall>j < i. Err h (backgrounds g ! j) = None)))
   \<and> (Err h (GroupBg g) = None \<longleftrightarrow> (\<forall>b \<in> set (backgrounds g). Err h b = None))
   \<and> Err h (DependBg c p f) =
       (case Err h p of Some err \<Rightarrow> Some err | None \<Rightarrow> Err h (GroupBg c))"
  by (cases g) (simp add: Err_loop_Some_iff Err_loop_None_iff split: option.splits)

theorem Err_precedence_witness:
  "Err ((\<lambda>a. None)(1 := Some (ErrorString 7 ''first''), 2 := Some (ErrorString 8 ''second'')))
     (GroupBg (Group [ErrBg (Group [] {} Closedchan Closedchan) 0,
                      ErrBg (Group [] {} Closedchan Closedchan) 1,
                      ErrBg (Group [] {} Closedchan Closedchan) 2] {} Closedchan Closedchan))
   = Some (ErrorString 7 ''first'')"
  by (rule iffD2[OF conjunct1[OF Err_precedence]], rule exI[of _ "Suc 0"]) simp

text \<open>
  Claim C10. \<^verbatim>\<open>Err\<close> of an error leaf is the leaf's own \<^verbatim>\<open>err\<close> field, whatever the
  children report: the leaf that \<^verbatim>\<open>withError(err, children...)\<close> returns reports
  \<open>err\<close>, so with a nil \<open>err\<close> it reports nil even when a child has an error.
\<close>

theorem Error_leaf_Err_own:
  "Err h (ErrBg g a) = h a
   \<and> (withError err children w = (b, w') \<longrightarrow> Err (errs w') b = err)"
  by (auto simp: withError_def Let_def split: prod.splits)

theorem Error_leaf_Err_own_witness:
  "(case withError (Some (ErrorString 1 ''child'')) [] init_world of (child, w1) \<Rightarrow>
      case withError None [Some child] w1 of (leaf, w2) \<Rightarrow>
        Err (errs w2) child = Some (ErrorString 1 ''child'')
      \<and> group_Err (errs w2) (fst (merge [Some child] w1)) = Some (ErrorString 1 ''child'')
      \<and> Err (errs w2) leaf = None)"
proof -
  obtain child w1 where c: "withError (Some (ErrorString 1 ''child'')) [] init_world = (child, w1)"
    by (cases "withError (Some (ErrorString 1 ''child'')) [] init_world")
  obtain leaf w2 where l: "withError None [Some child] w1 = (leaf, w2)"
    by (cases "withError None [Some child] w1")
  have own: "Err (errs w2) leaf = None"
    using Error_leaf_Err_own[of _ _ _ None "[Some child]" w1 leaf w2] l by blast
  have cv: "child = ErrBg (Group [] {} Closedchan Closedchan) 0"
    and w1v: "errs w1 0 = Some (ErrorString 1 ''child'')" "nextid w1 = 1" "Closedchan \<in> fired w1"
    using c by (auto simp: withError_def merge_def init_world_def Let_def)
  have "errs w2 0 = Some (ErrorString 1 ''child'')"
    using l w1v cv by (auto simp: withError_def merge_def Let_def split: prod.splits)
  moreover have "fst (merge [Some child] w1) = Group [child] {} (GroupDone 1) (GroupFinished 1)"
    using w1v cv by (simp add: merge_def Let_def)
  ultimately show ?thesis using c l own cv by simp
qed

subsection \<open>The error group\<close>

lemma errGroup_Error_keeps:
  "errs w a = Some e \<Longrightarrow> errs (errGroup_Error b x w) a = Some e"
  by (cases b) auto

lemma Error_calls_keep:
  "errs w a = Some e \<Longrightarrow>
   errs (foldl (\<lambda>w' (b, x). errGroup_Error b x w') w calls) a = Some e"
  by (induction calls arbitrary: w) (auto simp: errGroup_Error_keeps)

text \<open>
  Claim C7. \<^verbatim>\<open>Error(err)\<close> on an error group stores \<open>err\<close> only when the stored
  error is nil and \<open>err\<close> is not; any other call leaves the whole state as it is.
  Once \<^verbatim>\<open>Err\<close> has returned an error \<open>e\<close>, it returns \<open>e\<close> after any further
  sequence of \<^verbatim>\<open>Error\<close> calls, on this tail or on any other.
\<close>

theorem ErrorGroup_first_write_wins:
  "errs (errGroup_Error (ErrBg g a) err w) a = (if errs w a = None then err else errs w a)
   \<and> (errs w a \<noteq> None \<or> err = None \<longrightarrow> errGroup_Error (ErrBg g a) err w = w)
   \<and> (Err (errs w) (ErrBg g a) = Some e \<longrightarrow>
        Err (errs (foldl (\<lambda>w' (b, x). errGroup_Error b x w') w calls)) (ErrBg g a) = Some e)"
  by (auto simp: Error_calls_keep)

theorem ErrorGroup_first_write_wins_witness:
  "(case withErrorGroup [] init_world of (b, w) \<Rightarrow>
      Err (errs w) b = None
    \<and> Err (errs (errGroup_Error b (Some (ErrorString 1 ''first'')) w)) b
        = Some (ErrorString 1 ''first'')
    \<and> Err (errs (foldl (\<lambda>w' (b, x). errGroup_Error b x w')
                   (errGroup_Error b (Some (ErrorString 1 ''first'')) w)
                   [(b, Some (ErrorString 2 ''second'')), (b, None)])) b
        = Some (ErrorString 1 ''first''))"
proof -
  have eg: "withErrorGroup [] init_world
      = (ErrBg (Group [] {} Closedchan Closedchan) 0, init_world\<lparr>nextid := 1\<rparr>)"
    by (simp add: withErrorGroup_def withError_def merge_def init_world_def Let_def)
  let ?b = "ErrBg (Group [] {} Closedchan Closedchan) 0"
  let ?w = "init_world\<lparr>nextid := 1\<rparr>"
  have first: "Err (errs (errGroup_Error ?b (Some (ErrorString 1 ''first'')) ?w)) ?b
      = Some (ErrorString 1 ''first'')"
    by (simp add: init_world_def)
  have later: "Err (errs (foldl (\<lambda>w' (b, x). errGroup_Error b x w')
                   (errGroup_Error ?b (Some (ErrorString 1 ''first'')) ?w)
                   [(?b, Some (ErrorString 2 ''second'')), (?b, None)])) ?b
        = Some (ErrorString 1 ''first'')"
    by (rule mp[OF conjunct2[OF conjunct2[OF ErrorGroup_first_write_wins]] first])
  have "Err (errs ?w) ?b = None" by (simp add: init_world_def)
  with first later show ?thesis unfolding eg by simp
qed

subsection \<open>Values\<close>

text \<open>
  Claim C9. \<^verbatim>\<open>withValue\<close> panics on a nil key and on a key whose type is not
  comparable; on any other key it returns a value leaf holding exactly that key
  and value over the merged children. It never returns a leaf with a nil or
  non-comparable key.
\<close>

theorem withValue_key_check:
  "withValue Nil val children w = Inl ''nil background value key''
   \<and> (key \<noteq> Nil \<and> \<not> comparable key \<longrightarrow>
        withValue key val children w = Inl ''background value key is not comparable'')
   \<and> (key \<noteq> Nil \<and> comparable key \<longrightarrow>
        withValue key val children w
          = Inr (ValueBg (fst (merge children w)) key val, snd (merge children w)))
   \<and> (withValue key val children w = Inr (b, w') \<longrightarrow>
        key \<noteq> Nil \<and> comparable key \<and> b = ValueBg (fst (merge children w)) key val)"
  by (auto simp: withValue_def Let_def split: prod.splits if_splits)

theorem withValue_key_check_witness:
  "withValue (SliceV [1, 2]) (IntV 5) [] init_world = Inl ''background value key is not comparable''
   \<and> withValue (StrV ''k'') (IntV 5) [] init_world
       = Inr (ValueBg (Group [] {} Closedchan Closedchan) (StrV ''k'') (IntV 5), init_world)"
proof
  have "SliceV [1, 2] \<noteq> Nil \<and> \<not> comparable (SliceV [1, 2])" by simp
  then show "withValue (SliceV [1, 2]) (IntV 5) [] init_world
      = Inl ''background value key is not comparable''"
    by (rule mp[OF conjunct1[OF conjunct2[OF withValue_key_check]]])
  have "StrV ''k'' \<noteq> Nil \<and> comparable (StrV ''k'')" by simp
  then have "withValue (StrV ''k'') (IntV 5) [] init_world
      = Inr (ValueBg (fst (merge [] init_world)) (StrV ''k'') (IntV 5), snd (merge [] init_world))"
    by (rule mp[OF conjunct1[OF conjunct2[OF conjunct2[OF withValue_key_check]]]])
  then show "withValue (StrV ''k'') (IntV 5) [] init_world
       = Inr (ValueBg (Group [] {} Closedchan Closedchan) (StrV ''k'') (IntV 5), init_world)"
    by (simp add: merge_def)
qed

lemma Value_loop_find:
  "Value_loop key bs
     = (case find (\<lambda>b. Value key b \<noteq> Nil) bs of None \<Rightarrow> Nil | Some b \<Rightarrow> Value key b)"
  by (induction bs) auto

text \<open>
  Claim C5. \<^verbatim>\<open>Value(key)\<close> of a value leaf is the leaf's own value when \<open>key\<close> is
  the leaf's key, and otherwise the wrapped group's \<^verbatim>\<open>Value(key)\<close>, which is the
  result of the leftmost child whose result is not nil. For
  \<^verbatim>\<open>bg := WithValue(k1, v1)\<close> and \<^verbatim>\<open>bg2 := WithValue(k1, v2, bg)\<close>, \<^verbatim>\<open>bg2.Value(k1)\<close>
  is \<open>v2\<close>.
\<close>

theorem Value_precedence:
  "Value key (ValueBg g k v) = (if key = k then v else Value key (GroupBg g))
   \<and> Value key (GroupBg g)
       = (case find (\<lambda>b. Value key b \<noteq> Nil) (backgrounds g) of
            None \<Rightarrow> Nil | Some b \<Rightarrow> Value key b)
   \<and> (withValue k1 v1 [] w = Inr (b1, w1) \<and> withValue k1 v2 [Some b1] w1 = Inr (b2, w2)
        \<longrightarrow> Value k1 b2 = v2)"
  by (cases g) (auto simp: Value_loop_find withValue_def Let_def split: prod.splits if_splits)

theorem Value_precedence_witness:
  "(case withValue (StrV ''k1'') (IntV 1) [] init_world of
      Inl msg \<Rightarrow> False
    | Inr (b1, w1) \<Rightarrow>
       (case withValue (StrV ''k1'') (IntV 2) [Some b1] w1 of
          Inl msg \<Rightarrow> False
        | Inr (b2, w2) \<Rightarrow> Value (StrV ''k1'') b1 = IntV 1 \<and> Value (StrV ''k1'') b2 = IntV 2))"
proof -
  have 1: "withValue (StrV ''k1'') (IntV 1) [] init_world
      = Inr (ValueBg (Group [] {} Closedchan Closedchan) (StrV ''k1'') (IntV 1), init_world)"
    by (simp add: withValue_def merge_def)
  let ?b1 = "ValueBg (Group [] {} Closedchan Closedchan) (StrV ''k1'') (IntV 1)"
  obtain b2 w2 where 2: "withValue (StrV ''k1'') (IntV 2) [Some ?b1] init_world = Inr (b2, w2)"
    by (simp add: withValue_def merge_def Let_def init_world_def)
  have "Value (StrV ''k1'') b2 = IntV 2"
    using Value_precedence[of _ _ _ _ "StrV ''k1''" "IntV 1" init_world ?b1 init_world "IntV 2" b2 w2] 1 2
    by blast
  then show ?thesis unfolding 1 using 2 by simp
qed


section \<open>The goroutines\<close>

subsection \<open>Steps of one goroutine among the others\<close>

lemma step_unfold:
  "step (i, k) w =
     (if faulted w \<noteq> None \<or> length (pool w) \<le> i then w
      else case pool w ! i of
        [] \<Rightarrow> w
      | ins # rest \<Rightarrow>
          (case exec k ins (fired w) of
             Blocked \<Rightarrow> w
           | Fault p \<Rightarrow> w\<lparr>faulted := Some p\<rparr>
           | Next is sp cs \<Rightarrow>
               w\<lparr>fired := fired w \<union> set cs,
                 pool := (pool w)[i := is @ rest] @ sp,
                 closed_log := closed_log w @ cs,
                 trace := trace w @ [(i, ins, fired w)]\<rparr>))"
  by (simp add: step_def)

lemma step_fired_mono: "fired w \<subseteq> fired (step ik w)"
  by (cases ik) (auto simp: step_unfold split: list.splits outcome.splits)

lemma step_length_pool: "length (pool w) \<le> length (pool (step ik w))"
  by (cases ik) (auto simp: step_unfold split: list.splits outcome.splits)

lemma step_other:
  assumes "i < length (pool w)" "fst ik \<noteq> i"
  shows "pool (step ik w) ! i = pool w ! i" "thread_events i (step ik w) = thread_events i w"
  using assms
  by (cases ik; auto simp: step_unfold thread_events_def nth_append split: list.splits outcome.splits)+

lemma step_own:
  assumes "i < length (pool w)"
  shows "(pool (step (i, k) w) ! i = pool w ! i
            \<and> thread_events i (step (i, k) w) = thread_events i w
            \<and> fired (step (i, k) w) = fired w)
       \<or> (\<exists>ins rest is sp cs. pool w ! i = ins # rest \<and> exec k ins (fired w) = Next is sp cs
            \<and> pool (step (i, k) w) ! i = is @ rest
            \<and> thread_events i (step (i, k) w) = thread_events i w @ [(ins, fired w)]
            \<and> fired (step (i, k) w) = fired w \<union> set cs)"
  using assms
  by (auto simp: step_unfold thread_events_def nth_append split: list.splits outcome.splits)

lemma thread_invariant_step:
  assumes mono: "\<And>T E F F'. ph T E F \<Longrightarrow> F \<subseteq> F' \<Longrightarrow> ph T E F'"
    and own: "\<And>ins rest E F k is sp cs. ph (ins # rest) E F \<Longrightarrow> exec k ins F = Next is sp cs
                \<Longrightarrow> ph (is @ rest) (E @ [(ins, F)]) (F \<union> set cs)"
    and i: "i < length (pool w)"
    and ph: "ph (pool w ! i) (thread_events i w) (fired w)"
  shows "i < length (pool (step ik w))
       \<and> ph (pool (step ik w) ! i) (thread_events i (step ik w)) (fired (step ik w))"
proof
  show "i < length (pool (step ik w))" using i step_length_pool[of w ik] by simp
  show "ph (pool (step ik w) ! i) (thread_events i (step ik w)) (fired (step ik w))"
  proof (cases "fst ik = i")
    case False
    with step_other[OF i False] ph mono[OF _ step_fired_mono] show ?thesis by simp
  next
    case True
    then obtain k where ik: "ik = (i, k)" by (cases ik) auto
    from step_own[OF i, of k] show ?thesis
    proof
      assume "pool (step (i, k) w) ! i = pool w ! i
            \<and> thread_events i (step (i, k) w) = thread_events i w
            \<and> fired (step (i, k) w) = fired w"
      with ph ik show ?thesis by simp
    next
      assume "\<exists>ins rest is sp cs. pool w ! i = ins # rest \<and> exec k ins (fired w) = Next is sp cs
            \<and> pool (step (i, k) w) ! i = is @ rest
            \<and> thread_events i (step (i, k) w) = thread_events i w @ [(ins, fired w)]
            \<and> fired (step (i, k) w) = fired w \<union> set cs"
      then obtain ins rest "is" sp cs where
        h: "pool w ! i = ins # rest" "exec k ins (fired w) = Next is sp cs"
           "pool (step (i, k) w) ! i = is @ rest"
           "thread_events i (step (i, k) w) = thread_events i w @ [(ins, fired w)]"
           "fired (step (i, k) w) = fired w \<union> set cs" by blast
      from own[of ins rest "thread_events i w" "fired w" k "is" sp cs] ph h ik
      show ?thesis by simp
    qed
  qed
qed

lemma thread_invariant:
  assumes mono: "\<And>T E F F'. ph T E F \<Longrightarrow> F \<subseteq> F' \<Longrightarrow> ph T E F'"
    and own: "\<And>ins rest E F k is sp cs. ph (ins # rest) E F \<Longrightarrow> exec k ins F = Next is sp cs
                \<Longrightarrow> ph (is @ rest) (E @ [(ins, F)]) (F \<union> set cs)"
  shows "i < length (pool w) \<Longrightarrow> ph (pool w ! i) (thread_events i w) (fired w) \<Longrightarrow>
      i < length (pool (run sched w))
       \<and> ph (pool (run sched w) ! i) (thread_events i (run sched w)) (fired (run sched w))"
proof (induction sched arbitrary: w)
  case Nil
  then show ?case by simp
next
  case (Cons ik sched)
  have "i < length (pool (step ik w))
       \<and> ph (pool (step ik w) ! i) (thread_events i (step ik w)) (fired (step ik w))"
    by (rule thread_invariant_step[where ph = ph, OF _ _ Cons.prems])
       (erule (1) mono, erule (1) own)
  with Cons.IH[of "step ik w"] show ?case by simp
qed

subsection \<open>close of a dependency\<close>

lemma dep_ph_mono: "dep_ph c p f T E F \<Longrightarrow> F \<subseteq> F' \<Longrightarrow> dep_ph c p f T E F'"
  by (induction rule: dep_ph.induct) (auto intro: dep_ph.intros)

lemma exec_local:
  "is_local ins \<Longrightarrow> exec k ins F = Next is sp cs \<Longrightarrow> list_all is_local is"
  by (cases ins) (auto split: if_splits)

lemma dep_started_snoc: "dep_started c p f E E' \<Longrightarrow> dep_started c p f (E @ [e]) (E' @ [e])"
  by (auto simp: dep_started_def)

lemma local_late: "list_all (\<lambda>e. is_local (fst e)) E' \<Longrightarrow> dep_late c E'"
  by (auto simp: dep_late_def list_all_iff)

lemma dep_late_snoc: "dep_late c E' \<Longrightarrow> is_local ins \<or> finished c \<in> F \<Longrightarrow> dep_late c (E' @ [(ins, F)])"
  by (auto simp: dep_late_def)

lemma dep_ph_own:
  assumes ph: "dep_ph c p f (ins # rest) E F" and ex: "exec k ins F = Next is sp cs"
  shows "dep_ph c p f (is @ rest) (E @ [(ins, F)]) (F \<union> set cs)"
proof -
  let ?d = "DependBg c p f"
  let ?tail = "[IRecv (finished c), ICall p, IRecv (finishSig p), ICloseOnce f]"
  from ph show ?thesis
  proof (cases rule: dep_ph.cases)
    case p0
    then have "is = close_body ?d" "rest = []" "ins = ICall ?d" using ex by auto
    then show ?thesis using p0 dep_ph.p1[of c p f F "F \<union> set cs"] by simp
  next
    case (p1 F0)
    then have ins: "ins = ICallGroup c" and rest: "rest = ?tail" by auto
    from ex ins have loc: "list_all is_local is" by (auto split: if_splits)
    have "dep_started c p f (E @ [(ins, F)]) []" using p1 ins by (simp add: dep_started_def)
    from dep_ph.p2[OF loc this, of "F \<union> set cs"] show ?thesis using rest by simp
  next
    case (p2 X E')
    show ?thesis
    proof (cases X)
      case Nil
      with p2 have ins: "ins = IRecv (finished c)"
        and rest: "rest = [ICall p, IRecv (finishSig p), ICloseOnce f]" by auto
      from ex ins have fc: "finished c \<in> F \<union> set cs" and "is = []" by (auto split: if_splits)
      have "dep_late c (E' @ [(ins, F)])"
        using local_late[OF p2(4)] ins by (intro dep_late_snoc) auto
      from dep_ph.p3[OF fc dep_started_snoc[OF p2(3)] this, of "[ICall p]"]
      show ?thesis using rest \<open>is = []\<close> by simp
    next
      case (Cons x X')
      with p2 have ins: "ins = x" and rest: "rest = X' @ ?tail" and lx: "is_local x"
        and lX': "list_all is_local X'" by auto
      from exec_local[OF _ ex] lx ins have "list_all is_local is" by simp
      then have 1: "list_all is_local (is @ X')" using lX' by simp
      have 2: "list_all (\<lambda>e. is_local (fst e)) (E' @ [(ins, F)])" using p2(4) lx ins by simp
      from dep_ph.p2[OF 1 dep_started_snoc[OF p2(3)] 2, of "F \<union> set cs"]
      show ?thesis using rest by simp
    qed
  next
    case (p3 E' Y)
    have fc: "finished c \<in> F \<union> set cs" using p3 by simp
    have late: "dep_late c (E' @ [(ins, F)])" using p3 by (intro dep_late_snoc) auto
    show ?thesis
    proof (cases Y)
      case Nil
      with p3 have ins: "ins = IRecv (finishSig p)" and rest: "rest = [ICloseOnce f]"
        and called: "\<exists>F'. (ICall p, F') \<in> set E'" by auto
      from ex ins have fp: "finishSig p \<in> F \<union> set cs" and "is = []"
        by (auto split: if_splits)
      from called have called': "\<exists>F'. (ICall p, F') \<in> set (E' @ [(ins, F)])" by auto
      from dep_ph.p4[OF fc fp dep_started_snoc[OF p3(3)] late called']
      show ?thesis using rest \<open>is = []\<close> by simp
    next
      case (Cons y Y')
      with p3 have ins: "ins = y" and rest: "rest = Y' @ [IRecv (finishSig p), ICloseOnce f]" by auto
      have called: "\<exists>F'. (ICall p, F') \<in> set (E' @ [(ins, F)])"
        using p3(5) Cons ins by auto
      from dep_ph.p3[OF fc dep_started_snoc[OF p3(3)] late, of "is @ Y'"] called
      show ?thesis using rest by simp
    qed
  next
    case (p4 E')
    then have ins: "ins = ICloseOnce f" and rest: "rest = []" by auto
    from ex ins have "is = []" and f: "f \<in> F \<union> set cs" by (auto split: if_splits)
    have fc: "finished c \<in> F \<union> set cs" and fp: "finishSig p \<in> F \<union> set cs" using p4 by auto
    from dep_ph.p5[OF fc fp f, of "E @ [(ins, F)]" "E'" F] p4 ins
    show ?thesis using rest \<open>is = []\<close> dep_started_snoc[OF p4(5), of "(ins, F)"] by simp
  qed
qed

lemma parent_neq_depend: "p \<noteq> DependBg c p f"
proof
  assume "p = DependBg c p f"
  then have "size p = size (DependBg c p f)" by (rule arg_cong)
  then show False by simp
qed

lemma dep_ph_calls:
  assumes "dep_ph c p f T E F" and "(ICall b, F') \<in> set E"
  shows "b = DependBg c p f \<or> finished c \<in> F'"
  using assms
  by (cases rule: dep_ph.cases)
     (fastforce simp: dep_started_def dep_late_def list_all_iff)+

lemma dep_ph_first:
  assumes "dep_ph c p f T E F" and "2 \<le> length E"
  shows "map fst (take 2 E) = [ICall (DependBg c p f), ICallGroup c]"
  using assms
  by (cases rule: dep_ph.cases) (auto simp: dep_started_def numeral_2_eq_2)

lemma dep_ph_returned:
  assumes "dep_ph c p f [] E F"
  shows "f \<in> F \<and> finishSig p \<in> F \<and> finished c \<in> F \<and> E \<noteq> []
       \<and> (\<exists>F'. last E = (ICloseOnce f, F') \<and> finishSig p \<in> F' \<and> finished c \<in> F')
       \<and> (\<exists>F'. (ICall p, F') \<in> set E)"
  using assms
  by (cases rule: dep_ph.cases) (auto simp: dep_started_def)

lemma dep_ph_pending:
  assumes "dep_ph c p f T E F" and "T \<noteq> []"
  shows "T = [ICall (DependBg c p f)] \<or> last T = ICloseOnce f"
  using assms
  by (cases rule: dep_ph.cases) auto

lemma dep_ph_run:
  assumes "i < length (pool w0)" and "pool w0 ! i = [ICall (DependBg c p f)]"
  shows "dep_ph c p f (pool (run sched (w0\<lparr>trace := []\<rparr>)) ! i)
           (thread_events i (run sched (w0\<lparr>trace := []\<rparr>)))
           (fired (run sched (w0\<lparr>trace := []\<rparr>)))"
proof -
  have 1: "i < length (pool (w0\<lparr>trace := []\<rparr>))" using assms by simp
  have 2: "dep_ph c p f (pool (w0\<lparr>trace := []\<rparr>) ! i)
      (thread_events i (w0\<lparr>trace := []\<rparr>)) (fired (w0\<lparr>trace := []\<rparr>))"
    using assms by (simp add: thread_events_def dep_ph.p0)
  have "i < length (pool (run sched (w0\<lparr>trace := []\<rparr>)))
      \<and> dep_ph c p f (pool (run sched (w0\<lparr>trace := []\<rparr>)) ! i)
           (thread_events i (run sched (w0\<lparr>trace := []\<rparr>)))
           (fired (run sched (w0\<lparr>trace := []\<rparr>)))"
    by (rule thread_invariant[where ph = "dep_ph c p f", OF _ _ 1 2])
       (erule (1) dep_ph_mono, erule (1) dep_ph_own)
  then show ?thesis by blast
qed

text \<open>
  Claim C1. Let a goroutine run \<^verbatim>\<open>close\<close> of the dependency with children group
  \<open>c\<close>, parent \<open>p\<close> and finished channel \<open>f\<close>, whatever the other goroutines do
  and in whatever order the goroutines are scheduled. Every \<^verbatim>\<open>close\<close> that it calls
  on a node other than the dependency itself, the parent's included, it calls
  when the children's finished channel is closed already. Its first two
  instructions are the dispatch of the call and \<^verbatim>\<open>c.close()\<close>. Until it returns,
  the guarded close of \<open>f\<close> is its last pending instruction. When it has
  returned, it has called \<^verbatim>\<open>p.close()\<close>, its last instruction was the guarded close
  of \<open>f\<close>, run when the finished channels of the parent and of the children were
  closed, and \<open>f\<close> is closed.
\<close>

theorem Dependency_close_order:
  assumes "i < length (pool w0)" and "pool w0 ! i = [ICall (DependBg c p f)]"
  shows "let w = run sched (w0\<lparr>trace := []\<rparr>); E = thread_events i w in
      (\<forall>b F. (ICall b, F) \<in> set E \<longrightarrow> b = DependBg c p f \<or> finished c \<in> F)
    \<and> (\<forall>F. (ICall p, F) \<in> set E \<longrightarrow> finished c \<in> F)
    \<and> (2 \<le> length E \<longrightarrow> map fst (take 2 E) = [ICall (DependBg c p f), ICallGroup c])
    \<and> (pool w ! i \<noteq> [] \<longrightarrow>
          pool w ! i = [ICall (DependBg c p f)] \<or> last (pool w ! i) = ICloseOnce f)
    \<and> (pool w ! i = [] \<longrightarrow>
          (\<exists>F. (ICall p, F) \<in> set E)
        \<and> (\<exists>F. E \<noteq> [] \<and> last E = (ICloseOnce f, F) \<and> finishSig p \<in> F \<and> finished c \<in> F)
        \<and> f \<in> fired w)"
proof -
  let ?w = "run sched (w0\<lparr>trace := []\<rparr>)"
  note ph = dep_ph_run[OF assms, of sched]
  have 1: "\<forall>b F. (ICall b, F) \<in> set (thread_events i ?w) \<longrightarrow> b = DependBg c p f \<or> finished c \<in> F"
    using dep_ph_calls[OF ph] by blast
  then have 2: "\<forall>F. (ICall p, F) \<in> set (thread_events i ?w) \<longrightarrow> finished c \<in> F"
    using parent_neq_depend[of p c f] by blast
  have 3: "2 \<le> length (thread_events i ?w) \<longrightarrow>
      map fst (take 2 (thread_events i ?w)) = [ICall (DependBg c p f), ICallGroup c]"
    using dep_ph_first[OF ph] by blast
  have 4: "pool ?w ! i \<noteq> [] \<longrightarrow>
          pool ?w ! i = [ICall (DependBg c p f)] \<or> last (pool ?w ! i) = ICloseOnce f"
    using dep_ph_pending[OF ph] by blast
  have 5: "pool ?w ! i = [] \<longrightarrow>
          (\<exists>F. (ICall p, F) \<in> set (thread_events i ?w))
        \<and> (\<exists>F. thread_events i ?w \<noteq> [] \<and> last (thread_events i ?w) = (ICloseOnce f, F)
              \<and> finishSig p \<in> F \<and> finished c \<in> F)
        \<and> f \<in> fired ?w"
  proof
    assume e: "pool ?w ! i = []"
    from ph have "dep_ph c p f [] (thread_events i ?w) (fired ?w)" unfolding e .
    from dep_ph_returned[OF this] show "(\<exists>F. (ICall p, F) \<in> set (thread_events i ?w))
        \<and> (\<exists>F. thread_events i ?w \<noteq> [] \<and> last (thread_events i ?w) = (ICloseOnce f, F)
              \<and> finishSig p \<in> F \<and> finished c \<in> F)
        \<and> f \<in> fired ?w" by blast
  qed
  from 1 2 3 4 5 show ?thesis unfolding Let_def by blast
qed

lemma example_dependency_value:
  "example_dependency =
  (DependBg (Group [ShutdownBg (Group [] {} Closedchan Closedchan) (ShutdownEnd 1) (ShutdownDone 1)]
               {0} (GroupDone 2) (GroupFinished 2))
            (ShutdownBg (Group [] {} Closedchan Closedchan) (ShutdownEnd 0) (ShutdownDone 0))
            (DependFinished 3),
   \<lparr>fired = {Closedchan},
    pool = [[IRecv (ShutdownEnd 0), ICloseOnce (ShutdownDone 0)],
            [IRecv (ShutdownEnd 1), ICloseOnce (ShutdownDone 1)],
            [IRecv (GroupDone 2),
             ICall (ShutdownBg (Group [] {} Closedchan Closedchan) (ShutdownEnd 1) (ShutdownDone 1))]],
    nextid = 4, errs = (\<lambda>a. None), faulted = None, closed_log = [], trace = []\<rparr>)"
  by (simp add: example_dependency_def StartJob_def withShutdown_def DependsOn_def
      withDependency_def merge_def
      init_world_def spawn_def addToCloseStream_def Let_def)

theorem Dependency_close_order_witness:
  "(let d = fst example_dependency;
        w0 = spawn [ICall d] (snd example_dependency);
        w = run example_schedule (w0\<lparr>trace := []\<rparr>)
    in 3 < length (pool w0) \<and> pool w0 ! 3 = [ICall d] \<and> pool w ! 3 = []
     \<and> DependFinished 3 \<in> fired w
     \<and> (\<exists>F. (ICall (ShutdownBg (Group [] {} Closedchan Closedchan) (ShutdownEnd 0) (ShutdownDone 0)), F)
               \<in> set (thread_events 3 w) \<and> GroupFinished 2 \<in> F))"
proof -
  let ?c = "Group [ShutdownBg (Group [] {} Closedchan Closedchan) (ShutdownEnd 1) (ShutdownDone 1)]
               {0} (GroupDone 2) (GroupFinished 2)"
  let ?p = "ShutdownBg (Group [] {} Closedchan Closedchan) (ShutdownEnd 0) (ShutdownDone 0)"
  let ?start = "spawn [ICall (DependBg ?c ?p (DependFinished 3))] (snd example_dependency)"
  let ?final = "run example_schedule (?start\<lparr>trace := []\<rparr>)"
  have h1: "3 < length (pool ?start)"
    unfolding example_dependency_value by (simp add: spawn_def)
  have h2: "pool ?start ! 3 = [ICall (DependBg ?c ?p (DependFinished 3))]"
    unfolding example_dependency_value by (simp add: spawn_def)
  have r: "pool ?final ! 3 = []"
    unfolding example_dependency_value by (simp add: example_schedule_def spawn_def step_def)
  from Dependency_close_order[OF h1 h2, of example_schedule] r
  have "DependFinished 3 \<in> fired ?final
     \<and> (\<exists>F. (ICall ?p, F) \<in> set (thread_events 3 ?final) \<and> GroupFinished 2 \<in> F)"
    unfolding Let_def by (metis grp.sel(4))
  with h1 h2 r show ?thesis
    unfolding Let_def by (simp add: example_dependency_value)
qed

subsection \<open>merge and the close of a group\<close>

text \<open>
  Claim C3, at a list with a nil entry before a child that is not finished:
  \<^verbatim>\<open>merge(nil, s)\<close> for a fresh shutdown leaf \<open>s\<close> keeps the one child at index 0
  and tracks index 1, the child's index in the argument list; \<^verbatim>\<open>close\<close> of the
  group then reads \<^verbatim>\<open>backgrounds[1]\<close> and panics.
\<close>

theorem merge_nil_close_faults:
  "(case withShutdown [] init_world of (s, w1) \<Rightarrow>
      case merge [None, Some s] w1 of (g, w2) \<Rightarrow>
        backgrounds g = [s] \<and> toClose g = {Suc 0}
      \<and> faulted (spawn [ICall (GroupBg g)] w2) = None
      \<and> faulted (run [(Suc 0, 0), (Suc 0, 0), (Suc 0, Suc 0)] (spawn [ICall (GroupBg g)] w2))
          = Some IndexOutOfRange)"
proof -
  have sh: "withShutdown [] init_world =
     (ShutdownBg (Group [] {} Closedchan Closedchan) (ShutdownEnd 0) (ShutdownDone 0),
      init_world\<lparr>nextid := Suc 0\<rparr>)"
    by (simp add: withShutdown_def merge_def Let_def init_world_def)
  show ?thesis
    unfolding sh
    by (simp add: merge_def Let_def init_world_def addToCloseStream_def spawn_def step_def)
qed

text \<open>
  With a finished child after the shifted one, \<^verbatim>\<open>close\<close> waits for the wrong child:
  for \<^verbatim>\<open>merge(nil, s, Empty())\<close> it reads \<^verbatim>\<open>backgrounds[1]\<close>, the empty node, and
  closes the group's finished channel while \<open>s\<close> is not finished.
\<close>

lemma merge_nil_close_wrong_child:
  "(case withShutdown [] init_world of (s, w1) \<Rightarrow>
      case merge [None, Some s, Some Empty] w1 of (g, w2) \<Rightarrow>
        backgrounds g = [s, Empty] \<and> toClose g = {Suc 0}
      \<and> (let w = run [(Suc 0, 0), (Suc 0, 0), (Suc 0, Suc 0), (Suc 0, 0), (Suc 0, 0), (Suc 0, 0)]
                    (spawn [ICall (GroupBg g)] w2)
         in faulted w = None \<and> finished g \<in> fired w \<and> finishSig s \<notin> fired w))"
proof -
  have sh: "withShutdown [] init_world =
     (ShutdownBg (Group [] {} Closedchan Closedchan) (ShutdownEnd 0) (ShutdownDone 0),
      init_world\<lparr>nextid := Suc 0\<rparr>)"
    by (simp add: withShutdown_def merge_def Let_def init_world_def)
  have m: "merge [None, Some (ShutdownBg (Group [] {} Closedchan Closedchan) (ShutdownEnd 0) (ShutdownDone 0)), Some Empty]
      (init_world\<lparr>nextid := Suc 0\<rparr>)
    = (Group [ShutdownBg (Group [] {} Closedchan Closedchan) (ShutdownEnd 0) (ShutdownDone 0), EmptyBg]
         {Suc 0} (GroupDone (Suc 0)) (GroupFinished (Suc 0)),
       \<lparr>fired = {Closedchan},
        pool = [[IRecv (GroupDone (Suc 0)),
                 ICall (ShutdownBg (Group [] {} Closedchan Closedchan) (ShutdownEnd 0) (ShutdownDone 0))]],
        nextid = Suc (Suc 0), errs = (\<lambda>a. None), faulted = None, closed_log = [], trace = []\<rparr>)"
    by (simp add: merge_def Let_def init_world_def addToCloseStream_def Empty_def)
  show ?thesis
    unfolding sh prod.case m
    by (simp add: spawn_def step_def Let_def Empty_def)
qed


section \<open>Shutdown with a deadline\<close>

subsection \<open>What cause returns\<close>

lemma group_cause_loop: "group_cause F g = cause_loop F (backgrounds g)"
  by (cases g) simp

lemma cause_Some_path:
  "(cause F b = Some err \<longrightarrow> (\<exists>ls. unfinished_path F b ls \<and> err = foldr WrapError ls ErrTimeout))"
  "(group_cause F g = Some err \<longrightarrow>
      (\<exists>c \<in> set (backgrounds g). \<exists>ls. unfinished_path F c ls \<and> err = foldr WrapError ls ErrTimeout))"
  "(cause_loop F bs = Some err \<longrightarrow>
      (\<exists>c \<in> set bs. \<exists>ls. unfinished_path F c ls \<and> err = foldr WrapError ls ErrTimeout))"
proof (induction F b and F g and F bs arbitrary: err and err and err rule: cause_group_cause_cause_loop.induct)
  case (1 F)
  then show ?case by simp
next
  case (2 F g)
  then show ?case using unfinished_path.below[of _ "GroupBg g" F] by fastforce
next
  case (3 F g e d)
  show ?case
  proof
    assume a: "cause F (ShutdownBg g e d) = Some err"
    show "\<exists>ls. unfinished_path F (ShutdownBg g e d) ls \<and> err = foldr WrapError ls ErrTimeout"
    proof (cases "group_cause F g")
      case None
      with a have "d \<notin> F" "err = ErrTimeout" by (auto split: if_splits)
      then show ?thesis using unfinished_path.here[of F "ShutdownBg g e d"]
        by (intro exI[of _ "[]"]) simp
    next
      case (Some x)
      with a have "x = err" by simp
      with Some 3 obtain c ls where "c \<in> set (backgrounds g)" "unfinished_path F c ls"
        "err = foldr WrapError ls ErrTimeout" by blast
      then show ?thesis using unfinished_path.below[of c "ShutdownBg g e d" F ls] by auto
    qed
  qed
next
  case (4 F c p f)
  show ?case
  proof
    assume a: "cause F (DependBg c p f) = Some err"
    show "\<exists>ls. unfinished_path F (DependBg c p f) ls \<and> err = foldr WrapError ls ErrTimeout"
    proof (cases "group_cause F c")
      case None
      with a have "cause F p = Some err" by simp
      with 4(2)[OF None] obtain ls where "unfinished_path F p ls" "err = foldr WrapError ls ErrTimeout"
        by blast
      then show ?thesis using unfinished_path.below[of p "DependBg c p f" F ls] by auto
    next
      case (Some x)
      with a have "x = err" by simp
      with Some 4(1) obtain b ls where "b \<in> set (backgrounds c)" "unfinished_path F b ls"
        "err = foldr WrapError ls ErrTimeout" by blast
      then show ?thesis using unfinished_path.below[of b "DependBg c p f" F ls] by auto
    qed
  qed
next
  case (5 F g k v)
  then show ?case using unfinished_path.below[of _ "ValueBg g k v" F] by fastforce
next
  case (6 F g a)
  then show ?case using unfinished_path.below[of _ "ErrBg g a" F] by fastforce
next
  case (7 F g l)
  show ?case
  proof
    assume a: "cause F (AnnotationBg g l) = Some err"
    then obtain x where x: "group_cause F g = Some x" "err = WrapError l x"
      by (auto split: option.splits)
    with 7 obtain c ls where "c \<in> set (backgrounds g)" "unfinished_path F c ls"
        "x = foldr WrapError ls ErrTimeout" by blast
    then show "\<exists>ls. unfinished_path F (AnnotationBg g l) ls \<and> err = foldr WrapError ls ErrTimeout"
      using unfinished_path.below[of c "AnnotationBg g l" F ls] x by (intro exI[of _ "l # ls"]) auto
  qed
next
  case (8 F g r)
  then show ?case using unfinished_path.below[of _ "ReadinessBg g r" F] by fastforce
next
  case (9 F g w)
  then show ?case using unfinished_path.below[of _ "WaitBg g w" F] by fastforce
next
  case (10 F bs tc d f)
  then show ?case by simp
next
  case (11 F)
  then show ?case by simp
next
  case (12 F b bs)
  then show ?case by (auto split: option.splits)
qed

lemma cause_loop_member:
  "c \<in> set bs \<Longrightarrow> cause F c \<noteq> None \<Longrightarrow> cause_loop F bs \<noteq> None"
  by (induction bs) (auto split: option.splits)

lemma unfinished_path_cause: "unfinished_path F b ls \<Longrightarrow> cause F b \<noteq> None"
proof (induction rule: unfinished_path.induct)
  case (here b)
  then show ?case by (cases b) (auto split: option.splits)
next
  case (below c b ls)
  then show ?case
    by (cases b) (auto simp: group_cause_loop dest: cause_loop_member split: option.splits)
qed


subsection \<open>The race of shutdown\<close>

lemma shutdown_ph_mono: "shutdown_ph ctx c a T E F \<Longrightarrow> F \<subseteq> F' \<Longrightarrow> shutdown_ph ctx c a T E F'"
  by (induction rule: shutdown_ph.induct) (auto intro: shutdown_ph.intros)

lemma shutdown_ph_own:
  assumes ph: "shutdown_ph ctx c a (ins # rest) E F" and ex: "exec k ins F = Next is sp cs"
  shows "shutdown_ph ctx c a (is @ rest) (E @ [(ins, F)]) (F \<union> set cs)"
  using ph
proof (cases rule: shutdown_ph.cases)
  case s0
  then show ?thesis using ex by (auto intro: shutdown_ph.s1)
next
  case (s1 F0)
  then show ?thesis using ex by (auto split: if_splits intro: shutdown_ph.s2f shutdown_ph.s2d)
next
  case (s2f F1 F0)
  then show ?thesis using ex by (auto intro: shutdown_ph.s3f)
next
  case (s2d F1 F0)
  then show ?thesis using ex by (auto intro: shutdown_ph.s3d)
next
  case (s3d F1 F2 F0)
  then show ?thesis using ex by (auto intro: shutdown_ph.s4d)
qed

lemma shutdown_ph_returns:
  assumes "shutdown_ph ctx c a T E F" and "(IReturn r, F3) \<in> set E"
  shows "T = [] \<and> (\<exists>F1. (ISelect ctx c a, F1) \<in> set E
      \<and> ((r = None \<and> finishSig c \<in> F1)
         \<or> (ctx \<in> F1 \<and> (\<exists>F2. (ICause c a, F2) \<in> set E \<and> F1 \<subseteq> F2
                \<and> r = annotate a (cause F2 c)))))"
  using assms by (cases rule: shutdown_ph.cases) auto

lemma shutdown_ph_finished_first:
  assumes "shutdown_ph ctx c a T E F" and "(IReturn r, F3) \<in> set E"
    and "(ISelect ctx c a, F1) \<in> set E" and "ctx \<notin> F1"
  shows "r = None"
  using assms by (cases rule: shutdown_ph.cases) auto

lemma shutdown_ph_deadline_first:
  assumes "shutdown_ph ctx c a T E F" and "(IReturn r, F3) \<in> set E"
    and "(ISelect ctx c a, F1) \<in> set E" and "finishSig c \<notin> F1"
  shows "\<exists>F2. (ICause c a, F2) \<in> set E \<and> r = annotate a (cause F2 c)"
  using assms by (cases rule: shutdown_ph.cases) auto

lemma shutdown_ph_head:
  assumes "shutdown_ph ctx c a T E F" and "E \<noteq> []"
  shows "fst (hd E) = IGo (ICall c)"
  using assms by (cases rule: shutdown_ph.cases) auto

lemma shutdown_ph_run:
  assumes "i < length (pool w0)" and "pool w0 ! i = shutdown ctx c a"
  shows "shutdown_ph ctx c a (pool (run sched (w0\<lparr>trace := []\<rparr>)) ! i)
           (thread_events i (run sched (w0\<lparr>trace := []\<rparr>)))
           (fired (run sched (w0\<lparr>trace := []\<rparr>)))"
proof -
  have 1: "i < length (pool (w0\<lparr>trace := []\<rparr>))" using assms by simp
  have 2: "shutdown_ph ctx c a (pool (w0\<lparr>trace := []\<rparr>) ! i)
      (thread_events i (w0\<lparr>trace := []\<rparr>)) (fired (w0\<lparr>trace := []\<rparr>))"
    using assms by (simp add: thread_events_def shutdown_def shutdown_ph.s0)
  have "i < length (pool (run sched (w0\<lparr>trace := []\<rparr>)))
      \<and> shutdown_ph ctx c a (pool (run sched (w0\<lparr>trace := []\<rparr>)) ! i)
           (thread_events i (run sched (w0\<lparr>trace := []\<rparr>)))
           (fired (run sched (w0\<lparr>trace := []\<rparr>)))"
    by (rule thread_invariant[where ph = "shutdown_ph ctx c a", OF _ _ 1 2])
       (erule (1) shutdown_ph_mono, erule (1) shutdown_ph_own)
  then show ?thesis by blast
qed

lemma errors_Is_wrapped: "errors_Is (foldr WrapError ls ErrTimeout) ErrTimeout"
  by (induction ls) auto

lemma annotate_None: "annotate None r = r"
  by (cases r) auto

lemma errors_Is_refl: "errors_Is e e"
  by (cases e) auto

lemma shutdown_spawns:
  assumes "i < length (pool w0)" and "pool w0 ! i = shutdown ctx c a" and "faulted w0 = None"
  shows "pool (step (i, k) w0) = (pool w0)[i := [ISelect ctx c a]] @ [[ICall c]]"
  using assms by (simp add: step_def shutdown_def)


text \<open>
  Claim C2. Let a goroutine run \<^verbatim>\<open>shutdown(ctx, c)\<close>. Its first instruction starts
  \<^verbatim>\<open>c.close()\<close> as a goroutine of its own. Whenever it returns a value \<open>r\<close>, it has
  run the \<^verbatim>\<open>select\<close>, and either the finished channel of \<open>c\<close> was closed at the
  \<^verbatim>\<open>select\<close> and \<open>r\<close> is nil, or the context was done at the \<^verbatim>\<open>select\<close> and \<open>r\<close> is
  the result of \<^verbatim>\<open>c.cause()\<close>, called later. If the context was not done at the
  \<^verbatim>\<open>select\<close>, \<open>r\<close> is nil; if the finished channel was not closed, \<open>r\<close> is the
  result of \<^verbatim>\<open>cause\<close>. A result of \<^verbatim>\<open>cause\<close> that is not nil is \<^verbatim>\<open>ErrTimeout\<close> wrapped
  in the labels of the annotations along a path to a shutdown leaf that is not
  done, outermost first, and \<^verbatim>\<open>errors.Is\<close> finds \<^verbatim>\<open>ErrTimeout\<close> in it. The result is
  nil exactly when there is no such path: every shutdown leaf of the tree is done
  when \<^verbatim>\<open>cause\<close> walks it.
\<close>

theorem shutdown_race:
  assumes "i < length (pool w0)" and "pool w0 ! i = shutdown ctx c None"
  shows "let w = run sched (w0\<lparr>trace := []\<rparr>); E = thread_events i w in
      (faulted w0 = None \<longrightarrow>
         pool (step (i, k) w0) = (pool w0)[i := [ISelect ctx c None]] @ [[ICall c]])
    \<and> (E \<noteq> [] \<longrightarrow> fst (hd E) = IGo (ICall c))
    \<and> (\<forall>r F. (IReturn r, F) \<in> set E \<longrightarrow>
          pool w ! i = []
        \<and> (\<exists>F1. (ISelect ctx c None, F1) \<in> set E
             \<and> ((r = None \<and> finishSig c \<in> F1)
               \<or> (ctx \<in> F1 \<and> (\<exists>F2. (ICause c None, F2) \<in> set E \<and> F1 \<subseteq> F2 \<and> r = cause F2 c)))))
    \<and> (\<forall>r F F1. (IReturn r, F) \<in> set E \<and> (ISelect ctx c None, F1) \<in> set E \<and> ctx \<notin> F1
          \<longrightarrow> r = None)
    \<and> (\<forall>r F F1. (IReturn r, F) \<in> set E \<and> (ISelect ctx c None, F1) \<in> set E \<and> finishSig c \<notin> F1
          \<longrightarrow> (\<exists>F2. (ICause c None, F2) \<in> set E \<and> r = cause F2 c))
    \<and> (\<forall>F2 err. cause F2 c = Some err \<longrightarrow>
          (\<exists>ls. unfinished_path F2 c ls \<and> err = foldr WrapError ls ErrTimeout)
        \<and> errors_Is err ErrTimeout)
    \<and> (\<forall>F2. cause F2 c = None \<longleftrightarrow> (\<forall>ls. \<not> unfinished_path F2 c ls))"
proof -
  let ?w = "run sched (w0\<lparr>trace := []\<rparr>)"
  let ?E = "thread_events i ?w"
  note ph = shutdown_ph_run[OF assms, of sched]
  have 1: "faulted w0 = None \<longrightarrow>
         pool (step (i, k) w0) = (pool w0)[i := [ISelect ctx c None]] @ [[ICall c]]"
    using shutdown_spawns[OF assms] by blast
  have 2: "?E \<noteq> [] \<longrightarrow> fst (hd ?E) = IGo (ICall c)"
    using shutdown_ph_head[OF ph] by blast
  have 3: "\<forall>r F. (IReturn r, F) \<in> set ?E \<longrightarrow>
          pool ?w ! i = []
        \<and> (\<exists>F1. (ISelect ctx c None, F1) \<in> set ?E
             \<and> ((r = None \<and> finishSig c \<in> F1)
               \<or> (ctx \<in> F1 \<and> (\<exists>F2. (ICause c None, F2) \<in> set ?E \<and> F1 \<subseteq> F2 \<and> r = cause F2 c))))"
    using shutdown_ph_returns[OF ph] unfolding annotate_None by blast
  have 4: "\<forall>r F F1. (IReturn r, F) \<in> set ?E \<and> (ISelect ctx c None, F1) \<in> set ?E \<and> ctx \<notin> F1
          \<longrightarrow> r = None"
    using shutdown_ph_finished_first[OF ph] by blast
  have 5: "\<forall>r F F1. (IReturn r, F) \<in> set ?E \<and> (ISelect ctx c None, F1) \<in> set ?E \<and> finishSig c \<notin> F1
          \<longrightarrow> (\<exists>F2. (ICause c None, F2) \<in> set ?E \<and> r = cause F2 c)"
  proof (intro allI impI)
    fix r F F1
    assume "(IReturn r, F) \<in> set ?E \<and> (ISelect ctx c None, F1) \<in> set ?E \<and> finishSig c \<notin> F1"
    with shutdown_ph_deadline_first[OF ph, of r F F1]
    obtain F2 where "(ICause c None, F2) \<in> set ?E" "r = annotate None (cause F2 c)" by blast
    moreover have "annotate None (cause F2 c) = cause F2 c" by (cases "cause F2 c") auto
    ultimately show "\<exists>F2. (ICause c None, F2) \<in> set ?E \<and> r = cause F2 c" by auto
  qed
  have 6: "\<forall>F2 err. cause F2 c = Some err \<longrightarrow>
          (\<exists>ls. unfinished_path F2 c ls \<and> err = foldr WrapError ls ErrTimeout)
        \<and> errors_Is err ErrTimeout"
    using cause_Some_path(1)[of _ c] errors_Is_wrapped by blast
  have 7: "\<forall>F2. cause F2 c = None \<longleftrightarrow> (\<forall>ls. \<not> unfinished_path F2 c ls)"
  proof
    fix F2
    show "cause F2 c = None \<longleftrightarrow> (\<forall>ls. \<not> unfinished_path F2 c ls)"
    proof
      assume "cause F2 c = None"
      then show "\<forall>ls. \<not> unfinished_path F2 c ls" using unfinished_path_cause by blast
    next
      assume n: "\<forall>ls. \<not> unfinished_path F2 c ls"
      show "cause F2 c = None"
      proof (cases "cause F2 c")
        case (Some err)
        with cause_Some_path(1)[of F2 c err] n show ?thesis by blast
      qed simp
    qed
  qed
  from 1 2 3 4 5 6 7 show ?thesis unfolding Let_def by blast
qed

theorem shutdown_race_witness:
  "(let s = ShutdownBg (Group [] {} Closedchan Closedchan) (ShutdownEnd 0) (ShutdownDone 0);
        w0 = spawn [ICloseOnce (CtxDone 0)]
               (spawn (Shutdown (CtxDone 0) s) (snd (withShutdown [] init_world)));
        w = run timeout_schedule (w0\<lparr>trace := []\<rparr>)
    in fst (withShutdown [] init_world) = s
     \<and> 0 < length (pool w0) \<and> pool w0 ! 0 = shutdown (CtxDone 0) s None
     \<and> (\<exists>F. (IReturn (Some ErrTimeout), F) \<in> set (thread_events 0 w))
     \<and> pool w ! 0 = []
     \<and> (\<exists>F2. (ICause s None, F2) \<in> set (thread_events 0 w) \<and> cause F2 s = Some ErrTimeout))"
proof -
  let ?s = "ShutdownBg (Group [] {} Closedchan Closedchan) (ShutdownEnd 0) (ShutdownDone 0)"
  let ?v = "spawn [ICloseOnce (CtxDone 0)]
               (spawn (Shutdown (CtxDone 0) ?s) (snd (withShutdown [] init_world)))"
  let ?u = "run timeout_schedule (?v\<lparr>trace := []\<rparr>)"
  have sv: "withShutdown [] init_world = (?s, init_world\<lparr>nextid := Suc 0\<rparr>)"
    by (simp add: withShutdown_def merge_def Let_def init_world_def)
  have h1: "0 < length (pool ?v)" by (simp add: spawn_def)
  have h2: "pool ?v ! 0 = shutdown (CtxDone 0) ?s None"
    unfolding sv by (simp add: spawn_def init_world_def)
  have r: "(IReturn (Some ErrTimeout), {Closedchan, CtxDone 0}) \<in> set (thread_events 0 ?u)"
    unfolding sv
    by (simp add: timeout_schedule_def spawn_def init_world_def step_def shutdown_def
        thread_events_def insert_commute)
  note T = shutdown_race[OF h1 h2, of timeout_schedule, unfolded Let_def]
  from T r have "pool ?u ! 0 = []
     \<and> (\<exists>F2. (ICause ?s None, F2) \<in> set (thread_events 0 ?u) \<and> Some ErrTimeout = cause F2 ?s)"
    by blast
  then have "pool ?u ! 0 = []
     \<and> (\<exists>F2. (ICause ?s None, F2) \<in> set (thread_events 0 ?u) \<and> cause F2 ?s = Some ErrTimeout)"
    by metis
  with h1 h2 r sv show ?thesis unfolding Let_def by (simp only: fst_conv) blast
qed

subsection \<open>Annotations\<close>

lemma annotate_Some:
  "annotate (Some l) r = (case r of None \<Rightarrow> None | Some err \<Rightarrow> Some (WrapError l err))"
  by (cases r) auto

lemma generator_world_value:
  "generator_world =
    (AnnotationBg (Group [ShutdownBg (Group [] {} Closedchan Closedchan) (ShutdownEnd 0) (ShutdownDone 0)]
                     {0} (GroupDone 1) (GroupFinished 1)) ''generator'',
     \<lparr>fired = {Closedchan},
      pool = [[IRecv (GroupDone 1),
               ICall (ShutdownBg (Group [] {} Closedchan Closedchan) (ShutdownEnd 0) (ShutdownDone 0))],
              Shutdown (CtxDone 0)
                (AnnotationBg (Group [ShutdownBg (Group [] {} Closedchan Closedchan) (ShutdownEnd 0) (ShutdownDone 0)]
                     {0} (GroupDone 1) (GroupFinished 1)) ''generator''),
              [ICloseOnce (CtxDone 0)]],
      nextid = 2, errs = (\<lambda>a. None), faulted = None, closed_log = [], trace = []\<rparr>)"
  by (simp add: generator_world_def withShutdown_def withAnnotation_def merge_def
      init_world_def spawn_def addToCloseStream_def Let_def del: Shutdown.simps)


text \<open>
  Claim C6. For an annotation with label \<open>l\<close> around the group \<open>g\<close>: \<^verbatim>\<open>Err\<close> and
  \<^verbatim>\<open>cause\<close> return nil when the group's \<^verbatim>\<open>Err\<close> and \<^verbatim>\<open>cause\<close> return nil, and the
  group's error wrapped in \<open>l\<close> otherwise. The string of the wrapped error is
  \<open>l\<close>, a colon, a space and the string of the error; \<^verbatim>\<open>errors.Is\<close> finds the
  error in the wrapped error, and everything it finds in the error. A goroutine
  that runs \<^verbatim>\<open>Shutdown\<close> of the annotation runs \<^verbatim>\<open>shutdown\<close> on the group and
  returns nil when the group's finished channel won the \<^verbatim>\<open>select\<close>, and otherwise
  the result of the group's \<^verbatim>\<open>cause\<close>: nil when that is nil, wrapped in \<open>l\<close> when
  it is an error.
\<close>

theorem Annotation_wraps:
  "Err h (AnnotationBg g l)
     = (case Err h (GroupBg g) of None \<Rightarrow> None | Some err \<Rightarrow> Some (WrapError l err))
   \<and> cause F (AnnotationBg g l)
     = (case cause F (GroupBg g) of None \<Rightarrow> None | Some err \<Rightarrow> Some (WrapError l err))
   \<and> Error_string (WrapError l e) = l @ '': '' @ Error_string e
   \<and> errors_Is (WrapError l e) e
   \<and> (errors_Is e t \<longrightarrow> errors_Is (WrapError l e) t)
   \<and> (i < length (pool w0) \<and> pool w0 ! i = Shutdown ctx (AnnotationBg g l) \<longrightarrow>
        (let w = run sched (w0\<lparr>trace := []\<rparr>); E = thread_events i w in
          \<forall>r F3. (IReturn r, F3) \<in> set E \<longrightarrow>
            (\<exists>F1. (ISelect ctx (GroupBg g) (Some l), F1) \<in> set E
               \<and> ((r = None \<and> finished g \<in> F1)
                 \<or> (ctx \<in> F1 \<and> (\<exists>F2. (ICause (GroupBg g) (Some l), F2) \<in> set E
                      \<and> r = (case cause F2 (GroupBg g) of None \<Rightarrow> None
                               | Some err \<Rightarrow> Some (WrapError l err))))))))"
proof (intro conjI)
  show "Err h (AnnotationBg g l)
     = (case Err h (GroupBg g) of None \<Rightarrow> None | Some err \<Rightarrow> Some (WrapError l err))"
    by simp
  show "cause F (AnnotationBg g l)
     = (case cause F (GroupBg g) of None \<Rightarrow> None | Some err \<Rightarrow> Some (WrapError l err))"
    by simp
  show "Error_string (WrapError l e) = l @ '': '' @ Error_string e" by simp
  show "errors_Is (WrapError l e) e" by (simp add: errors_Is_refl)
  show "errors_Is e t \<longrightarrow> errors_Is (WrapError l e) t" by simp
  show "i < length (pool w0) \<and> pool w0 ! i = Shutdown ctx (AnnotationBg g l) \<longrightarrow>
        (let w = run sched (w0\<lparr>trace := []\<rparr>); E = thread_events i w in
          \<forall>r F3. (IReturn r, F3) \<in> set E \<longrightarrow>
            (\<exists>F1. (ISelect ctx (GroupBg g) (Some l), F1) \<in> set E
               \<and> ((r = None \<and> finished g \<in> F1)
                 \<or> (ctx \<in> F1 \<and> (\<exists>F2. (ICause (GroupBg g) (Some l), F2) \<in> set E
                      \<and> r = (case cause F2 (GroupBg g) of None \<Rightarrow> None
                               | Some err \<Rightarrow> Some (WrapError l err)))))))"
  proof
    assume a: "i < length (pool w0) \<and> pool w0 ! i = Shutdown ctx (AnnotationBg g l)"
    then have 1: "i < length (pool w0)" and 2: "pool w0 ! i = shutdown ctx (GroupBg g) (Some l)"
      by simp_all
    note ph = shutdown_ph_run[OF 1 2, of sched]
    show "let w = run sched (w0\<lparr>trace := []\<rparr>); E = thread_events i w in
          \<forall>r F3. (IReturn r, F3) \<in> set E \<longrightarrow>
            (\<exists>F1. (ISelect ctx (GroupBg g) (Some l), F1) \<in> set E
               \<and> ((r = None \<and> finished g \<in> F1)
                 \<or> (ctx \<in> F1 \<and> (\<exists>F2. (ICause (GroupBg g) (Some l), F2) \<in> set E
                      \<and> r = (case cause F2 (GroupBg g) of None \<Rightarrow> None
                               | Some err \<Rightarrow> Some (WrapError l err))))))"
      unfolding Let_def
      using shutdown_ph_returns[OF ph, unfolded annotate_Some] by fastforce
  qed
qed

theorem Annotation_wraps_witness:
  "(let an = fst generator_world; w0 = snd generator_world;
        g = Group [ShutdownBg (Group [] {} Closedchan Closedchan) (ShutdownEnd 0) (ShutdownDone 0)]
                     {0} (GroupDone 1) (GroupFinished 1);
        w = run generator_schedule (w0\<lparr>trace := []\<rparr>)
    in an = AnnotationBg g ''generator''
     \<and> 1 < length (pool w0) \<and> pool w0 ! 1 = Shutdown (CtxDone 0) an
     \<and> (\<exists>F. (IReturn (Some (WrapError ''generator'' ErrTimeout)), F) \<in> set (thread_events 1 w))
     \<and> (\<exists>F2. cause F2 (GroupBg g) = Some ErrTimeout)
     \<and> Error_string (WrapError ''generator'' ErrTimeout) = ''generator: timeout expired''
     \<and> errors_Is (WrapError ''generator'' ErrTimeout) ErrTimeout)"
proof -
  let ?g = "Group [ShutdownBg (Group [] {} Closedchan Closedchan) (ShutdownEnd 0) (ShutdownDone 0)]
                     {0} (GroupDone 1) (GroupFinished 1)"
  let ?v = "snd generator_world"
  let ?u = "run generator_schedule (?v\<lparr>trace := []\<rparr>)"
  have an: "fst generator_world = AnnotationBg ?g ''generator''"
    unfolding generator_world_value by simp
  have h: "1 < length (pool ?v) \<and> pool ?v ! 1 = Shutdown (CtxDone 0) (AnnotationBg ?g ''generator'')"
    unfolding generator_world_value by (simp del: Shutdown.simps)
  have r: "(IReturn (Some (WrapError ''generator'' ErrTimeout)), {Closedchan, CtxDone 0})
      \<in> set (thread_events 1 ?u)"
    unfolding generator_world_value
    by (simp add: generator_schedule_def step_def shutdown_def thread_events_def insert_commute)
  note T = Annotation_wraps[where g = ?g and l = "''generator''" and e = ErrTimeout
      and i = 1 and ?w0.0 = ?v and ctx = "CtxDone 0" and sched = generator_schedule]
  from T have wrapped: "errors_Is (WrapError ''generator'' ErrTimeout) ErrTimeout" by blast
  from T h have "\<forall>r F3. (IReturn r, F3) \<in> set (thread_events 1 ?u) \<longrightarrow>
            (\<exists>F1. (ISelect (CtxDone 0) (GroupBg ?g) (Some ''generator''), F1) \<in> set (thread_events 1 ?u)
               \<and> ((r = None \<and> finished ?g \<in> F1)
                 \<or> (CtxDone 0 \<in> F1 \<and> (\<exists>F2. (ICause (GroupBg ?g) (Some ''generator''), F2) \<in> set (thread_events 1 ?u)
                      \<and> r = (case cause F2 (GroupBg ?g) of None \<Rightarrow> None
                               | Some err \<Rightarrow> Some (WrapError ''generator'' err))))))"
    unfolding Let_def by blast
  with r obtain F2 where "Some (WrapError ''generator'' ErrTimeout)
      = (case cause F2 (GroupBg ?g) of None \<Rightarrow> None | Some err \<Rightarrow> Some (WrapError ''generator'' err))"
    by blast
  then have c: "cause F2 (GroupBg ?g) = Some ErrTimeout"
    by (cases "cause F2 (GroupBg ?g)") auto
  have str: "Error_string (WrapError ''generator'' ErrTimeout) = ''generator: timeout expired''"
    by simp
  from an h r c str wrapped show ?thesis unfolding Let_def by (simp only:) blast
qed

section \<open>No channel is closed twice\<close>

subsection \<open>What merge builds\<close>

lemma merge_loop_shape:
  "merge_loop dn i bgs (ss, tc, w) = (ss', tc', w') \<Longrightarrow>
     ss' = ss @ map the (filter (\<lambda>b. b \<noteq> None) bgs)
   \<and> tc' \<subseteq> tc \<union> {i ..< i + length bgs}
   \<and> fired w' = fired w"
proof (induction bgs arbitrary: i ss tc w)
  case Nil
  then show ?case by simp
next
  case (Cons b bgs)
  show ?case
  proof (cases b)
    case None
    with Cons.prems have "merge_loop dn (Suc i) bgs (ss, tc, w) = (ss', tc', w')" by simp
    from Cons.IH[OF this] None show ?thesis by auto
  next
    case (Some s)
    show ?thesis
    proof (cases "finishSig s \<in> fired w")
      case True
      with Cons.prems Some have "merge_loop dn (Suc i) bgs (ss @ [s], tc, w) = (ss', tc', w')"
        by simp
      from Cons.IH[OF this] Some show ?thesis by auto
    next
      case False
      with Cons.prems Some
      have "merge_loop dn (Suc i) bgs (ss @ [s], insert i tc, addToCloseStream dn s w)
          = (ss', tc', w')" by simp
      from Cons.IH[OF this] False Some show ?thesis
        by (auto simp: addToCloseStream_def)
    qed
  qed
qed

lemma merge_chan_ok: "chan_ok (fst (merge bgs w))"
  by (auto simp: merge_def Let_def split: prod.splits)

lemma merge_backgrounds:
  "backgrounds (fst (merge bgs w)) = map the (filter (\<lambda>b. b \<noteq> None) bgs)"
proof (cases "bgs = []")
  case True
  then show ?thesis by (simp add: merge_def)
next
  case False
  obtain ss tc w' where m: "merge_loop (GroupDone (nextid w)) 0 bgs ([], {}, w\<lparr>nextid := Suc (nextid w)\<rparr>)
      = (ss, tc, w')" by (metis prod_cases3)
  from merge_loop_shape[OF m] False m show ?thesis by (simp add: merge_def Let_def)
qed

lemma merge_toClose: "toClose (fst (merge bgs w)) \<subseteq> {..< length bgs}"
proof (cases "bgs = []")
  case True
  then show ?thesis by (simp add: merge_def)
next
  case False
  obtain ss tc w' where m: "merge_loop (GroupDone (nextid w)) 0 bgs ([], {}, w\<lparr>nextid := Suc (nextid w)\<rparr>)
      = (ss, tc, w')" by (metis prod_cases3)
  from merge_loop_shape[OF m] False m show ?thesis by (auto simp: merge_def Let_def)
qed

lemma merge_idx_ok: "None \<notin> set bgs \<Longrightarrow> idx_ok (fst (merge bgs w))"
proof -
  assume n: "None \<notin> set bgs"
  then have "filter (\<lambda>b. b \<noteq> None) bgs = bgs" by (intro filter_True) metis
  then have "length (backgrounds (fst (merge bgs w))) = length bgs"
    by (simp add: merge_backgrounds)
  with merge_toClose[of bgs w] show ?thesis by (auto simp: idx_ok_def)
qed


text \<open>
  Every node that a constructor returns can be closed under this discipline, and
  \<^verbatim>\<open>merge\<close> adds only goroutines of callers: the watchers of the children. With
  no nil child, the indices in \<^verbatim>\<open>toClose\<close> are indices of the children.
\<close>

lemma constructors_closable:
  "closable Empty"
  "closable (fst (Merge cs w))"
  "closable (fst (withShutdown cs w))"
  "closable p \<Longrightarrow> closable (fst (withDependency p cs w))"
  "withValue key val cs w = Inr (b, w') \<Longrightarrow> closable b"
  "closable (fst (withError err cs w))"
  "closable (fst (withErrorGroup cs w))"
  "closable (fst (withAnnotation l cs w))"
  "closable (fst (withReadiness cs w))"
  "closable (fst (withWait cs w))"
  using merge_chan_ok[of cs w]
  by (auto simp: Empty_def Merge_def withShutdown_def withDependency_def withValue_def
      withError_def withErrorGroup_def withAnnotation_def withReadiness_def withWait_def
      Let_def split: prod.splits if_splits)

lemma merge_loop_callers:
  "merge_loop dn i bgs (ss, tc, w) = (ss', tc', w')
   \<Longrightarrow> \<forall>T \<in> set (pool w). list_all caller_instr T
   \<Longrightarrow> \<forall>b. Some b \<in> set bgs \<longrightarrow> closable b
   \<Longrightarrow> \<forall>T \<in> set (pool w'). list_all caller_instr T"
proof (induction bgs arbitrary: i ss tc w)
  case Nil
  then show ?case by simp
next
  case (Cons b bgs)
  show ?case
  proof (cases b)
    case None
    with Cons.prems have "merge_loop dn (Suc i) bgs (ss, tc, w) = (ss', tc', w')" by simp
    from Cons.IH[OF this] Cons.prems show ?thesis by simp
  next
    case (Some s)
    show ?thesis
    proof (cases "finishSig s \<in> fired w")
      case True
      with Cons.prems Some have "merge_loop dn (Suc i) bgs (ss @ [s], tc, w) = (ss', tc', w')"
        by simp
      from Cons.IH[OF this] Cons.prems show ?thesis by simp
    next
      case False
      with Cons.prems Some
      have m: "merge_loop dn (Suc i) bgs (ss @ [s], insert i tc, addToCloseStream dn s w)
          = (ss', tc', w')" by simp
      have "closable s" using Cons.prems(3) Some by simp
      then have "list_all caller_instr [IRecv dn, ICall s]" by (simp add: caller_instr_def)
      then have "\<forall>T \<in> set (pool (addToCloseStream dn s w)). list_all caller_instr T"
        using Cons.prems(2) by (simp add: addToCloseStream_def)
      from Cons.IH[OF m this] Cons.prems(3) show ?thesis by simp
    qed
  qed
qed

lemma merge_callers:
  assumes "\<forall>T \<in> set (pool w). list_all caller_instr T"
    and "\<forall>b. Some b \<in> set bgs \<longrightarrow> closable b"
  shows "\<forall>T \<in> set (pool (snd (merge bgs w))). list_all caller_instr T"
proof (cases "bgs = []")
  case True
  with assms show ?thesis by (simp add: merge_def)
next
  case False
  obtain ss tc w' where m: "merge_loop (GroupDone (nextid w)) 0 bgs ([], {}, w\<lparr>nextid := Suc (nextid w)\<rparr>)
      = (ss, tc, w')" by (metis prod_cases3)
  have "\<forall>T \<in> set (pool (w\<lparr>nextid := Suc (nextid w)\<rparr>)). list_all caller_instr T"
    using assms(1) by simp
  from merge_loop_callers[OF m this assms(2)] False m show ?thesis
    by (simp add: merge_def Let_def)
qed

subsection \<open>The invariant of the pending closes\<close>




















subsection \<open>Indices and the log of closes\<close>












subsection \<open>Repeated calls\<close>














end
